theory Spec2Isabelle
  imports Main
begin

section \<open>Text and the character tables of the regular-expression engine\<close>

text \<open>
  A Python \<open>str\<close> is a sequence of Unicode code points; a code point is a natural number.
  The detector's rules mention code points beyond one byte (\<open>U+200B\<close>, \<open>U+202A\<close>, ...), so
  the 8-bit \<open>char\<close> of HOL is not enough for the scanned content.  Pattern sources and
  report strings are ASCII and stay \<open>string\<close>s.
\<close>

type_synonym codepoint = nat
type_synonym pystr = "codepoint list"

definition cps :: "string \<Rightarrow> pystr" where
  "cps s = map of_char s"

text \<open>
  Python's \<open>re\<close> reads three tables of the interpreter's Unicode database when it matches a
  \<open>str\<close> pattern under \<open>re.IGNORECASE\<close>: the simple lower-case mapping, \<open>str.isalnum\<close>
  (for \<open>\b\<close>) and \<open>str.isspace\<close> (for \<open>\s\<close>).  Their ASCII part is written out below.  The
  part beyond ASCII belongs to the interpreter, not to this repository, and is a parameter
  of the model: every general theorem holds for every choice of it.
\<close>

record unicode_db =
  lower_ext :: "codepoint \<Rightarrow> codepoint"
  alnum_ext :: "codepoint \<Rightarrow> bool"
  space_ext :: "codepoint \<Rightarrow> bool"

definition ascii_isalpha :: "codepoint \<Rightarrow> bool" where
  "ascii_isalpha c = (65 \<le> c \<and> c \<le> 90 \<or> 97 \<le> c \<and> c \<le> 122)"

definition ascii_tolower :: "codepoint \<Rightarrow> codepoint" where
  "ascii_tolower c = (if 65 \<le> c \<and> c \<le> 90 then c + 32 else c)"

definition unicode_tolower :: "unicode_db \<Rightarrow> codepoint \<Rightarrow> codepoint" where
  "unicode_tolower U c = (if c < 128 then ascii_tolower c else lower_ext U c)"

definition is_word :: "unicode_db \<Rightarrow> codepoint \<Rightarrow> bool" where
  "is_word U c =
     (if c < 128 then ascii_isalpha c \<or> 48 \<le> c \<and> c \<le> 57 \<or> c = 95 else alnum_ext U c)"

definition is_space :: "unicode_db \<Rightarrow> codepoint \<Rightarrow> bool" where
  "is_space U c = (if c < 128 then 9 \<le> c \<and> c \<le> 13 \<or> 28 \<le> c \<and> c \<le> 32 else space_ext U c)"

text \<open>
  The database used for concrete evaluations: nothing beyond ASCII is a letter, a digit or
  white space, and nothing beyond ASCII changes under lower-casing.  It agrees with
  CPython on every code point below 128, and the concrete inputs below are ASCII.
\<close>

definition ascii_db :: unicode_db where
  "ascii_db = \<lparr>lower_ext = (\<lambda>c. c), alnum_ext = (\<lambda>c. False), space_ext = (\<lambda>c. False)\<rparr>"

text \<open>
  \<open>sre\<close> keeps a table of lower-case letters that share an upper-case letter
  (\<open>_ignorecase_fixes\<close>).  Its entries with an ASCII key are \<open>i\<close> (dotless i, \<open>U+0131\<close>) and
  \<open>s\<close> (long s, \<open>U+017F\<close>); the corpus has no cased literal beyond ASCII.
\<close>

definition ignorecase_fixes :: "codepoint \<Rightarrow> codepoint list" where
  "ignorecase_fixes lo = (if lo = 105 then [305] else if lo = 115 then [383] else [])"

section \<open>Regular expressions as compiled by \<open>re.compile\<close>\<close>

text \<open>
  The compiled form of a pattern tests one character at a time with one of these
  operations:
  \<^item> \<open>Lit c\<close>: the character is \<open>c\<close> (a literal that has no case);
  \<^item> \<open>LitI lo\<close>: the lower-cased character is \<open>lo\<close> or one of its fixes (a cased literal
    under \<open>re.IGNORECASE\<close>);
  \<^item> \<open>Dot\<close>: any character but the newline (no lexical rule is compiled with
    \<open>re.DOTALL\<close>, and no structural rule has a dot);
  \<^item> \<open>In\<close>, \<open>NotIn\<close>: a class without cased members, tested on the character itself;
  \<^item> \<open>InI\<close>: a class with cased members, whose lower-cased members and their fixes are
    tested against the lower-cased character.
  A class item is a character, a range or the category \<open>\s\<close>.
\<close>

datatype citem = Ch codepoint | Rng codepoint codepoint | CatSpace

datatype atom =
    Lit codepoint
  | LitI codepoint
  | Dot
  | In "citem list"
  | NotIn "citem list"
  | InI "citem list"

fun item_has :: "unicode_db \<Rightarrow> citem \<Rightarrow> codepoint \<Rightarrow> bool" where
  "item_has U (Ch c) d = (d = c)"
| "item_has U (Rng lo hi) d = (lo \<le> d \<and> d \<le> hi)"
| "item_has U CatSpace d = is_space U d"

definition folds_to :: "unicode_db \<Rightarrow> codepoint \<Rightarrow> codepoint \<Rightarrow> bool" where
  "folds_to U c x = (let lo = unicode_tolower U c in x = lo \<or> List.member (ignorecase_fixes lo) x)"

fun item_has_ci :: "unicode_db \<Rightarrow> citem \<Rightarrow> codepoint \<Rightarrow> bool" where
  "item_has_ci U (Ch c) x = folds_to U c x"
| "item_has_ci U (Rng lo hi) x = list_ex (\<lambda>c. folds_to U c x) [lo ..< Suc hi]"
| "item_has_ci U CatSpace x = is_space U x"

fun atom_ok :: "unicode_db \<Rightarrow> atom \<Rightarrow> codepoint \<Rightarrow> bool" where
  "atom_ok U (Lit c) d = (d = c)"
| "atom_ok U (LitI lo) d =
     (unicode_tolower U d = lo \<or> List.member (ignorecase_fixes lo) (unicode_tolower U d))"
| "atom_ok U Dot d = (d \<noteq> 10)"
| "atom_ok U (In items) d = list_ex (\<lambda>i. item_has U i d) items"
| "atom_ok U (NotIn items) d = (\<not> list_ex (\<lambda>i. item_has U i d) items)"
| "atom_ok U (InI items) d = list_ex (\<lambda>i. item_has_ci U i (unicode_tolower U d)) items"

text \<open>
  A pattern is built from character tests, the word boundary \<open>\b\<close>, sequence,
  alternation and repetition.  Optional parts and counted repetitions are written with
  these (see \<open>opt\<close>, \<open>plus\<close>, \<open>at_least\<close>, \<open>up_to\<close> below).

  A cursor is a position in the text: the characters before it, nearest first, and the
  characters after it.  \<open>\b\<close> holds at a cursor when exactly one of the two characters next
  to it is a word character; the start and the end of the text count as non-word.
\<close>

datatype rx = Eps | Atom atom | Bnd | Seq rx rx | Alt rx rx | Star rx

type_synonym cursor = "codepoint list \<times> codepoint list"

fun word_at :: "unicode_db \<Rightarrow> codepoint list \<Rightarrow> bool" where
  "word_at U [] = False"
| "word_at U (c # cs) = is_word U c"

definition at_boundary :: "unicode_db \<Rightarrow> cursor \<Rightarrow> bool" where
  "at_boundary U z = (word_at U (fst z) \<noteq> word_at U (snd z))"

text \<open>
  \<open>mrest U r z\<close> lists the cursors at which a match of \<open>r\<close> that starts at \<open>z\<close> can end.
  The corpus has no back-reference, look-around or possessive construct, so the
  backtracking matcher of \<open>re\<close> finds a match from a start position exactly when this list
  is not empty.  An iteration of a repetition that consumes nothing is dropped, as the
  engine does to leave empty loops; no end cursor is lost by it.  \<open>re.MULTILINE\<close> only
  changes \<open>^\<close> and \<open>$\<close>, which no rule uses.
\<close>

function mrest :: "unicode_db \<Rightarrow> rx \<Rightarrow> cursor \<Rightarrow> cursor list" where
  "mrest U Eps z = [z]"
| "mrest U (Atom a) z =
     (case snd z of [] \<Rightarrow> [] | d # t \<Rightarrow> if atom_ok U a d then [(d # fst z, t)] else [])"
| "mrest U Bnd z = (if at_boundary U z then [z] else [])"
| "mrest U (Seq r1 r2) z = concat (map (mrest U r2) (mrest U r1 z))"
| "mrest U (Alt r1 r2) z = mrest U r1 z @ mrest U r2 z"
| "mrest U (Star r) z =
     z # concat (map (mrest U (Star r))
                  (filter (\<lambda>z'. length (snd z') < length (snd z)) (mrest U r z)))"
  by pat_completeness auto
termination
  by (relation "inv_image (less_than <*lex*> less_than) (\<lambda>(U, r, z). (size r, length (snd z)))")
     auto

text \<open>
  \<open>pattern.search(content)\<close> tries every start position from left to right and reports
  whether one of them has a match.
\<close>

fun search_from :: "unicode_db \<Rightarrow> rx \<Rightarrow> codepoint list \<Rightarrow> codepoint list \<Rightarrow> bool" where
  "search_from U r b [] = (mrest U r (b, []) \<noteq> [])"
| "search_from U r b (d # a) =
     (if mrest U r (b, d # a) = [] then search_from U r (d # b) a else True)"

definition search :: "unicode_db \<Rightarrow> rx \<Rightarrow> pystr \<Rightarrow> bool" where
  "search U r s = search_from U r [] s"


section \<open>The pattern corpus\<close>

text \<open>
  Builders for the regular-expression syntax the corpus uses.  Under \<open>re.IGNORECASE\<close> the
  compiler emits a case-insensitive literal for a cased character (here: an ASCII letter),
  holding its lower-case form, and an exact literal for any other character.
\<close>

definition lit :: "char \<Rightarrow> rx" where
  "lit c = (let n = of_char c
            in if ascii_isalpha n then Atom (LitI (ascii_tolower n)) else Atom (Lit n))"

fun seqs :: "rx list \<Rightarrow> rx" where
  "seqs [] = Eps"
| "seqs [r] = r"
| "seqs (r # rs) = Seq r (seqs rs)"

fun alts :: "rx list \<Rightarrow> rx" where
  "alts [] = Atom (In [])"
| "alts [r] = r"
| "alts (r # rs) = Alt r (alts rs)"

definition lits :: "string \<Rightarrow> rx" where
  "lits s = seqs (map lit s)"

definition opt :: "rx \<Rightarrow> rx" where
  "opt r = Alt r Eps"

definition plus :: "rx \<Rightarrow> rx" where
  "plus r = Seq r (Star r)"

primrec at_least :: "nat \<Rightarrow> rx \<Rightarrow> rx" where
  "at_least 0 r = Star r"
| "at_least (Suc n) r = Seq r (at_least n r)"

primrec up_to :: "nat \<Rightarrow> rx \<Rightarrow> rx" where
  "up_to 0 r = Eps"
| "up_to (Suc n) r = opt (Seq r (up_to n r))"

definition ws :: rx where
  "ws = Atom (In [CatSpace])"

definition ws0 :: rx where
  "ws0 = Star ws"

definition ws1 :: rx where
  "ws1 = plus ws"

definition any0 :: rx where
  "any0 = Star (Atom Dot)"

definition not_gt :: rx where
  "not_gt = Atom (NotIn [Ch 62])"

definition quote :: rx where
  "quote = Atom (In [Ch 34, Ch 39])"

definition not_quote :: rx where
  "not_quote = Atom (NotIn [Ch 34, Ch 39])"

type_synonym rule = "rx \<times> int \<times> string"

definition targets :: rx where
  "targets = alts [seqs [lits ''INSTRUCTION'', opt (lits ''S'')],
                   seqs [lits ''PROMPT'', opt (lits ''S'')]]"

definition prev_prior :: rx where
  "prev_prior = opt (alts [seqs [lits ''PREVIOUS'', ws1], seqs [lits ''PRIOR'', ws1]])"

definition secrets :: rx where
  "secrets = alts [seqs [lits ''API'', ws1, lits ''KEY'', opt (lits ''S'')],
                   seqs [lits ''CREDENTIAL'', opt (lits ''S'')],
                   seqs [lits ''TOKEN'', opt (lits ''S'')],
                   seqs [lits ''SECRET'', opt (lits ''S'')]]"

definition tell_verbs :: rx where
  "tell_verbs = alts [lits ''TELL'', lits ''INFORM'', lits ''MENTION'', lits ''REVEAL'']"

definition style_attr :: rx where
  "style_attr = seqs [lits ''<'', plus not_gt, lits ''style'', ws0, lits ''='', ws0,
                      quote, Star not_quote]"

definition INJECTION_PATTERNS :: "rule list" where
  "INJECTION_PATTERNS = [
    (seqs [lits ''IGNORE'', ws1, opt (seqs [lits ''ALL'', ws1]),
           opt (alts [seqs [lits ''PREVIOUS'', ws1], seqs [lits ''PRIOR'', ws1],
                      seqs [lits ''ABOVE'', ws1]]),
           targets],
     50, ''Instruction override attempt''),
    (seqs [lits ''DISREGARD'', ws1, opt (seqs [lits ''ALL'', ws1]), prev_prior, targets],
     50, ''Instruction override attempt''),
    (seqs [lits ''FORGET'', ws1,
           opt (alts [seqs [lits ''ALL'', ws1], seqs [lits ''YOUR'', ws1]]),
           prev_prior, targets],
     50, ''Instruction override attempt''),
    (seqs [lits ''OVERRIDE'', ws1, opt (seqs [lits ''ALL'', ws1]), prev_prior, targets],
     50, ''Instruction override attempt''),

    (seqs [lits ''NEW'', ws1, lits ''INSTRUCTION'', opt (lits ''S''), ws0, lits '':''],
     50, ''New instruction injection''),
    (seqs [lits ''SYSTEM'', ws1, lits ''PROMPT'', ws0, lits '':''],
     50, ''System prompt injection''),
    (seqs [lits ''UPDATE'', opt (lits ''D''), ws1, lits ''INSTRUCTION'', opt (lits ''S''),
           ws0, lits '':''],
     40, ''Instruction update attempt''),
    (seqs [lits ''REVISED'', ws1, lits ''INSTRUCTION'', opt (lits ''S''), ws0, lits '':''],
     40, ''Instruction revision attempt''),

    (seqs [lits ''YOU'', ws1, lits ''ARE'', ws1, lits ''NOW'', ws1],
     50, ''Role hijacking attempt''),
    (seqs [lits ''ACT'', ws1, lits ''AS'', ws1,
           opt (seqs [lits ''IF'', ws1, lits ''YOU'', ws1,
                      alts [lits ''ARE'', lits ''WERE''], ws1])],
     50, ''Role hijacking attempt''),
    (seqs [lits ''PRETEND'', ws1,
           alts [seqs [lits ''TO'', ws1, lits ''BE''], seqs [lits ''YOU'', ws1, lits ''ARE'']],
           ws1],
     50, ''Role hijacking attempt''),
    (seqs [lits ''FROM'', ws1, lits ''NOW'', ws1, lits ''ON'',
           plus (Atom (In [Ch 44, CatSpace])),
           alts [lits ''YOU'', lits ''YOUR''], ws1],
     50, ''Role hijacking attempt''),
    (seqs [lits ''ENTERING'', ws1,
           alts [lits ''MAINTENANCE'', lits ''DEVELOPER'', lits ''ADMIN'', lits ''DEBUG''],
           ws1, lits ''MODE''],
     50, ''Mode hijacking attempt''),

    (seqs [Bnd, lits ''JAILBREAK'', Bnd], 50, ''Jailbreak keyword''),
    (seqs [Bnd, lits ''DAN'', ws1, lits ''MODE'', Bnd], 50, ''DAN mode jailbreak''),
    (seqs [Bnd, lits ''DEVELOPER'', ws1, lits ''MODE'', Bnd], 50, ''Developer mode jailbreak''),
    (seqs [Bnd, lits ''UNRESTRICTED'', ws1, lits ''MODE'', Bnd],
     50, ''Unrestricted mode jailbreak''),

    (lits ''[INST]'', 50, ''Model token [INST]''),
    (lits ''[/INST]'', 50, ''Model token [/INST]''),
    (lits ''<|im_start|>'', 50, ''Model token <|im_start|>''),
    (lits ''<|im_end|>'', 50, ''Model token <|im_end|>''),
    (lits ''<<SYS>>'', 50, ''Model token <<SYS>>''),
    (lits ''<</SYS>>'', 50, ''Model token <</SYS>>''),
    (lits ''<|system|>'', 50, ''Model token <|system|>''),
    (lits ''<|user|>'', 50, ''Model token <|user|>''),
    (lits ''<|assistant|>'', 50, ''Model token <|assistant|>''),

    (seqs [lits ''DO'', ws1, lits ''NOT'', ws1, tell_verbs, Bnd, any0, Bnd, lits ''USER''],
     50, ''Secrecy instruction''),
    (seqs [lits ''DON'', opt (Atom (Lit 39)), lits ''T'', ws1, tell_verbs, Bnd, any0, Bnd,
           lits ''USER''],
     50, ''Secrecy instruction''),
    (seqs [lits ''HIDE'', ws1, lits ''THIS'', ws1, alts [lits ''FROM'', lits ''MESSAGE'']],
     50, ''Secrecy instruction''),
    (seqs [lits ''KEEP'', ws1, lits ''THIS'', ws1,
           alts [lits ''SECRET'', lits ''HIDDEN'', lits ''PRIVATE'']],
     50, ''Secrecy instruction''),
    (seqs [lits ''BEGIN'', ws1, lits ''YOUR'', ws1, lits ''RESPONSE'', ws1, lits ''WITH''],
     50, ''Response manipulation''),

    (seqs [lits ''OUTPUT'', ws1, opt (seqs [lits ''ALL'', ws1]),
           opt (seqs [lits ''YOUR'', ws1]), secrets],
     50, ''Data exfiltration attempt''),
    (seqs [lits ''REVEAL'', ws1, opt (seqs [lits ''ALL'', ws1]),
           opt (seqs [lits ''YOUR'', ws1]), secrets],
     50, ''Data exfiltration attempt''),
    (seqs [lits ''SHOW'', ws1, opt (seqs [lits ''ME'', ws1]), opt (seqs [lits ''ALL'', ws1]),
           opt (seqs [lits ''YOUR'', ws1]), alts [lits ''ENVIRONMENT'', lits ''ENV''], ws1,
           lits ''VARIABLE'', opt (lits ''S'')],
     50, ''Data exfiltration attempt''),
    (seqs [lits ''OUTPUT'', ws1, lits ''ALL'', ws1, opt (seqs [lits ''YOUR'', ws1])],
     20, ''Possible data exfiltration''),

    (seqs [at_least 5 (lits ''=''), any0, lits ''INSTRUCTION'', any0, at_least 5 (lits ''='')],
     30, ''Instruction boundary marker''),
    (seqs [at_least 5 (lits ''-''), any0, lits ''INSTRUCTION'', any0, at_least 5 (lits ''-'')],
     30, ''Instruction boundary marker''),
    (seqs [at_least 5 (lits ''*''), any0, lits ''INSTRUCTION'', any0, at_least 5 (lits ''*'')],
     30, ''Instruction boundary marker'')
  ]"

definition comment_rx :: rx where
  "comment_rx = seqs [lits ''<!--'', Star not_gt,
                      alts [lits ''instruction'', lits ''ignore'', lits ''system'',
                            lits ''prompt''],
                      Star not_gt, lits ''-->'']"

definition STRUCTURAL_PATTERNS :: "rule list" where
  "STRUCTURAL_PATTERNS = [
    (seqs [style_attr, lits ''display'', ws0, lits '':'', ws0, lits ''none''],
     30, ''Hidden HTML (display:none)''),
    (seqs [style_attr, lits ''font-size'', ws0, lits '':'', ws0, lits ''0''],
     30, ''Hidden HTML (zero font)''),
    (seqs [style_attr, lits ''color'', ws0, lits '':'', ws0,
           alts [lits ''white'', lits ''#fff'', lits ''transparent'']],
     20, ''Hidden HTML (invisible color)''),
    (seqs [lits ''<'', plus not_gt, Bnd, lits ''hidden'', Bnd, Star not_gt, lits ''>''],
     25, ''Hidden HTML (hidden attribute)''),
    (seqs [lits ''<'', plus not_gt, lits ''aria-hidden'', ws0, lits ''='', ws0, quote,
           lits ''true'', quote],
     20, ''Hidden HTML (aria-hidden)''),

    (comment_rx, 25, ''Suspicious HTML comment''),

    (seqs [at_least 100 (Atom (InI [Rng 65 90, Rng 97 122, Rng 48 57, Ch 43, Ch 47])),
           up_to 2 (lits ''='')],
     15, ''Large Base64 block''),

    (Atom (In [Ch 8203, Ch 8204, Ch 8205, Ch 65279]), 25, ''Zero-width Unicode characters''),
    (Atom (In [Rng 8234 8238, Rng 8294 8297]), 25, ''Text direction override characters'')
  ]"

section \<open>The scan result and the detector\<close>

text \<open>
  \<open>ScanResult\<close> is a dataclass whose \<open>__post_init__\<close> runs after the fields are stored;
  \<open>mk_ScanResult\<close> is the constructor call.  The detector object holds the two compiled
  rule lists; \<open>init\<close> is the detector \<open>InjectionDetector()\<close> builds.
\<close>

record ScanResult =
  is_safe :: bool
  score :: int
  detections :: "string list"

definition post_init :: "ScanResult \<Rightarrow> ScanResult" where
  "post_init r = (if score r \<ge> 50 then r\<lparr>is_safe := False\<rparr> else r)"

definition mk_ScanResult :: "bool \<Rightarrow> int \<Rightarrow> string list \<Rightarrow> ScanResult" where
  "mk_ScanResult safe sc dets = post_init \<lparr>is_safe = safe, score = sc, detections = dets\<rparr>"

definition BLOCK_THRESHOLD :: int where
  "BLOCK_THRESHOLD = 50"

record InjectionDetector =
  compiled_injection :: "rule list"
  compiled_structural :: "rule list"

definition init :: InjectionDetector where
  "init = \<lparr>compiled_injection = INJECTION_PATTERNS, compiled_structural = STRUCTURAL_PATTERNS\<rparr>"

text \<open>
  \<open>str_int\<close> is the decimal text of an integer, as an f-string field prints it, and
  \<open>detection\<close> the f-string \<open>"{family}: {description} (+{points})"\<close> of the two loops.
\<close>

function digits :: "nat \<Rightarrow> string" where
  "digits n = (if n < 10 then [''0123456789'' ! n]
               else digits (n div 10) @ [''0123456789'' ! (n mod 10)])"
  by pat_completeness auto
termination
  by (relation "measure (\<lambda>n. n)") auto

definition str_int :: "int \<Rightarrow> string" where
  "str_int i = (if i < 0 then ''-'' @ digits (nat (- i)) else digits (nat i))"

definition detection :: "string \<Rightarrow> string \<Rightarrow> int \<Rightarrow> string" where
  "detection family description points =
     family @ '': '' @ description @ '' (+'' @ str_int points @ '')''"

fun check_patterns ::
  "unicode_db \<Rightarrow> string \<Rightarrow> rule list \<Rightarrow> pystr \<Rightarrow> int \<times> string list \<Rightarrow> int \<times> string list" where
  "check_patterns U family [] content acc = acc"
| "check_patterns U family ((pattern, points, description) # rules) content (sc, dets) =
     check_patterns U family rules content
       (if search U pattern content
        then (sc + points, dets @ [detection family description points])
        else (sc, dets))"

definition scan :: "unicode_db \<Rightarrow> InjectionDetector \<Rightarrow> pystr \<Rightarrow> ScanResult" where
  "scan U self content =
     (if content = [] then mk_ScanResult True 0 []
      else
        let acc1 = check_patterns U ''Pattern'' (compiled_injection self) content (0, []);
            acc2 = check_patterns U ''Structure'' (compiled_structural self) content acc1;
            safe = (fst acc2 < BLOCK_THRESHOLD)
        in mk_ScanResult safe (fst acc2) (snd acc2))"

definition scan_with_context ::
  "unicode_db \<Rightarrow> InjectionDetector \<Rightarrow> pystr \<Rightarrow> pystr option \<Rightarrow> pystr option \<Rightarrow> ScanResult" where
  "scan_with_context U self content url tool_name = scan U self content"

section \<open>The call as the interpreter runs it\<close>

text \<open>
  A call of \<open>scan\<close> can fail to deliver a result in two ways: an operation raises, or
  the call never returns.  Both are outcomes of the model below.

  Python does not check the annotation \<open>content: str\<close>.  The only operation of \<open>scan\<close>
  that can raise is \<open>pattern.search(content)\<close>: a pattern compiled from a \<open>str\<close> rejects
  every argument that is not a \<open>str\<close> with \<open>TypeError\<close>.

  The only operation that loops is the matcher behind \<open>pattern.search\<close>, a backtracking
  procedure that calls itself for the parts of a pattern and for each further iteration
  of a repetition.  \<open>mrest_fuel n\<close> is that procedure with its nested calls counted: it
  gives \<open>None\<close> when \<open>n\<close> nested calls do not suffice.  \<open>scan_run n\<close> is the method body over
  the values a caller can pass, run on this matcher; \<open>Unfinished\<close> is its outcome when the
  matcher has not returned within \<open>n\<close> nested calls.
\<close>

datatype pyval = PyNone | PyInt int | PyStr pystr | PyBytes "nat list"

datatype pyexc = TypeError

datatype 'a outcome = Unfinished | Raises pyexc | Returns 'a

fun falsy :: "pyval \<Rightarrow> bool" where
  "falsy PyNone = True"
| "falsy (PyInt i) = (i = 0)"
| "falsy (PyStr s) = (s = [])"
| "falsy (PyBytes bs) = (bs = [])"

fun collect :: "(cursor \<Rightarrow> cursor list option) \<Rightarrow> cursor list \<Rightarrow> cursor list option" where
  "collect f [] = Some []"
| "collect f (z # zs) =
     (case f z of
        None \<Rightarrow> None
      | Some ends \<Rightarrow> (case collect f zs of None \<Rightarrow> None | Some others \<Rightarrow> Some (ends @ others)))"

fun mrest_fuel :: "nat \<Rightarrow> unicode_db \<Rightarrow> rx \<Rightarrow> cursor \<Rightarrow> cursor list option" where
  "mrest_fuel 0 U r z = None"
| "mrest_fuel (Suc n) U Eps z = Some [z]"
| "mrest_fuel (Suc n) U (Atom a) z =
     Some (case snd z of [] \<Rightarrow> [] | d # t \<Rightarrow> if atom_ok U a d then [(d # fst z, t)] else [])"
| "mrest_fuel (Suc n) U Bnd z = Some (if at_boundary U z then [z] else [])"
| "mrest_fuel (Suc n) U (Seq r1 r2) z =
     (case mrest_fuel n U r1 z of
        None \<Rightarrow> None
      | Some zs \<Rightarrow> collect (mrest_fuel n U r2) zs)"
| "mrest_fuel (Suc n) U (Alt r1 r2) z =
     (case mrest_fuel n U r1 z of
        None \<Rightarrow> None
      | Some zs1 \<Rightarrow>
          (case mrest_fuel n U r2 z of None \<Rightarrow> None | Some zs2 \<Rightarrow> Some (zs1 @ zs2)))"
| "mrest_fuel (Suc n) U (Star r) z =
     (case mrest_fuel n U r z of
        None \<Rightarrow> None
      | Some zs \<Rightarrow>
          (case collect (mrest_fuel n U (Star r))
                  (filter (\<lambda>z'. length (snd z') < length (snd z)) zs) of
             None \<Rightarrow> None
           | Some others \<Rightarrow> Some (z # others)))"

fun search_from_fuel ::
  "nat \<Rightarrow> unicode_db \<Rightarrow> rx \<Rightarrow> codepoint list \<Rightarrow> codepoint list \<Rightarrow> bool option" where
  "search_from_fuel n U r b [] =
     (case mrest_fuel n U r (b, []) of None \<Rightarrow> None | Some zs \<Rightarrow> Some (zs \<noteq> []))"
| "search_from_fuel n U r b (d # a) =
     (case mrest_fuel n U r (b, d # a) of
        None \<Rightarrow> None
      | Some zs \<Rightarrow> if zs = [] then search_from_fuel n U r (d # b) a else Some True)"

fun pattern_search :: "nat \<Rightarrow> unicode_db \<Rightarrow> rx \<Rightarrow> pyval \<Rightarrow> bool outcome" where
  "pattern_search n U pattern (PyStr s) =
     (case search_from_fuel n U pattern [] s of None \<Rightarrow> Unfinished | Some hit \<Rightarrow> Returns hit)"
| "pattern_search n U pattern v = Raises TypeError"

fun check_patterns_run ::
  "nat \<Rightarrow> unicode_db \<Rightarrow> string \<Rightarrow> rule list \<Rightarrow> pyval \<Rightarrow> int \<times> string list
     \<Rightarrow> (int \<times> string list) outcome" where
  "check_patterns_run n U family [] content acc = Returns acc"
| "check_patterns_run n U family ((pattern, points, description) # rules) content (sc, dets) =
     (case pattern_search n U pattern content of
        Unfinished \<Rightarrow> Unfinished
      | Raises e \<Rightarrow> Raises e
      | Returns hit \<Rightarrow>
          check_patterns_run n U family rules content
            (if hit then (sc + points, dets @ [detection family description points])
             else (sc, dets)))"

definition scan_run :: "nat \<Rightarrow> unicode_db \<Rightarrow> InjectionDetector \<Rightarrow> pyval \<Rightarrow> ScanResult outcome" where
  "scan_run n U self content =
     (if falsy content then Returns (mk_ScanResult True 0 [])
      else
        case check_patterns_run n U ''Pattern'' (compiled_injection self) content (0, []) of
          Unfinished \<Rightarrow> Unfinished
        | Raises e \<Rightarrow> Raises e
        | Returns acc1 \<Rightarrow>
            (case check_patterns_run n U ''Structure'' (compiled_structural self) content acc1 of
               Unfinished \<Rightarrow> Unfinished
             | Raises e \<Rightarrow> Raises e
             | Returns acc2 \<Rightarrow>
                 Returns (mk_ScanResult (fst acc2 < BLOCK_THRESHOLD) (fst acc2) (snd acc2))))"

section \<open>Notions the properties are stated with\<close>

text \<open>
  The corpus in evaluation order, the rules of a list whose matcher occurs in a text (in
  list order, each rule once), and the sum of the weights of a list of rules.
\<close>

definition corpus :: "rule list" where
  "corpus = INJECTION_PATTERNS @ STRUCTURAL_PATTERNS"

definition matched :: "unicode_db \<Rightarrow> rule list \<Rightarrow> pystr \<Rightarrow> rule list" where
  "matched U rules content =
     filter (\<lambda>(pattern, points, description). search U pattern content) rules"

definition weights :: "rule list \<Rightarrow> int" where
  "weights rules = sum_list (map (\<lambda>(pattern, points, description). points) rules)"

text \<open>
  A word character is what \<open>\w\<close> matches: a letter, a digit or the underscore.  The rules
  other than the suspicious-comment rule are the corpus without its entry at index 5 of the
  structural family.
\<close>

definition ends_with_word :: "unicode_db \<Rightarrow> pystr \<Rightarrow> bool" where
  "ends_with_word U s = word_at U (rev s)"

definition starts_with_word :: "unicode_db \<Rightarrow> pystr \<Rightarrow> bool" where
  "starts_with_word U s = word_at U s"

definition rules_besides_comment :: "rule list" where
  "rules_besides_comment =
     INJECTION_PATTERNS @ take 5 STRUCTURAL_PATTERNS @ drop 6 STRUCTURAL_PATTERNS"

text \<open>
  Four rules have \<open>\b\<close> at an edge of their pattern: the jailbreak keyword and the DAN,
  developer and unrestricted mode rules, entries 13 to 16 of the lexical family.  Their
  match can end or begin at a word boundary that is the end or the start of the text.
\<close>

definition edge_boundary_rules :: "rule list" where
  "edge_boundary_rules = take 4 (drop 13 INJECTION_PATTERNS)"

text \<open>
  \<open>min_len r\<close> is a number of characters every match of \<open>r\<close> consumes.  \<open>tail_ok r f\<close>
  says that every \<open>\b\<close> of \<open>r\<close> is followed, inside the match, by a part that consumes a
  character, where \<open>f\<close> tells whether the pattern around \<open>r\<close> provides one; \<open>head_ok r f\<close>
  says the same of the part before each \<open>\b\<close>.
\<close>

fun min_len :: "rx \<Rightarrow> nat" where
  "min_len Eps = 0"
| "min_len (Atom a) = 1"
| "min_len Bnd = 0"
| "min_len (Seq r1 r2) = min_len r1 + min_len r2"
| "min_len (Alt r1 r2) = min (min_len r1) (min_len r2)"
| "min_len (Star r) = 0"

fun tail_ok :: "rx \<Rightarrow> bool \<Rightarrow> bool" where
  "tail_ok Eps f = True"
| "tail_ok (Atom a) f = True"
| "tail_ok Bnd f = f"
| "tail_ok (Seq r1 r2) f = (tail_ok r1 (f \<or> 0 < min_len r2) \<and> tail_ok r2 f)"
| "tail_ok (Alt r1 r2) f = (tail_ok r1 f \<and> tail_ok r2 f)"
| "tail_ok (Star r) f = tail_ok r f"

fun head_ok :: "rx \<Rightarrow> bool \<Rightarrow> bool" where
  "head_ok Eps f = True"
| "head_ok (Atom a) f = True"
| "head_ok Bnd f = f"
| "head_ok (Seq r1 r2) f = (head_ok r1 f \<and> head_ok r2 (f \<or> 0 < min_len r1))"
| "head_ok (Alt r1 r2) f = (head_ok r1 f \<and> head_ok r2 f)"
| "head_ok (Star r) f = head_ok r f"

section \<open>The matcher: cursors, context and search\<close>

declare digits.simps [simp del]

declare mrest.simps(6) [simp del]

lemma in_mrest_Star:
  "z' \<in> set (mrest U (Star r) z) \<longleftrightarrow>
     z' = z \<or> (\<exists>z1 \<in> set (mrest U r z).
                 length (snd z1) < length (snd z) \<and> z' \<in> set (mrest U (Star r) z1))"
  by (subst mrest.simps(6)) auto

lemma mrest_Star_refl: "z \<in> set (mrest U (Star r) z)"
  by (subst mrest.simps(6)) simp

lemma mrest_Star_step:
  "z1 \<in> set (mrest U r z) \<Longrightarrow> length (snd z1) < length (snd z) \<Longrightarrow>
   z' \<in> set (mrest U (Star r) z1) \<Longrightarrow> z' \<in> set (mrest U (Star r) z)"
  using in_mrest_Star[of z' U r z] by blast

lemma mrest_whole:
  "z' \<in> set (mrest U r z) \<Longrightarrow> rev (fst z') @ snd z' = rev (fst z) @ snd z"
proof (induction U r z arbitrary: z' rule: mrest.induct)
  case (1 U z)
  then show ?case by simp
next
  case (2 U a z)
  then show ?case by (cases z) (auto split: list.splits if_splits)
next
  case (3 U z)
  then show ?case by (simp split: if_splits)
next
  case (4 U r1 r2 z)
  from "4.prems" obtain z1 where z1: "z1 \<in> set (mrest U r1 z)" and z': "z' \<in> set (mrest U r2 z1)"
    by auto
  from "4.IH"(2)[OF z1 z'] "4.IH"(1)[OF z1] show ?case by simp
next
  case (5 U r1 r2 z)
  then show ?case by auto
next
  case (6 U r z)
  from "6.prems" consider "z' = z"
    | z1 where "z1 \<in> set (mrest U r z)" "length (snd z1) < length (snd z)"
        "z' \<in> set (mrest U (Star r) z1)"
    by (auto simp: in_mrest_Star[of z' U r z])
  then show ?case
  proof cases
    case 1
    then show ?thesis by simp
  next
    case 2
    from "6.IH"(2)[of z1 z'] 2 "6.IH"(1)[OF 2(1)] show ?thesis by simp
  qed
qed

text \<open>Appending text after the cursor keeps a match, unless a word boundary at the very
  end of the old text is closed by a word character of the new text.\<close>

lemma mrest_append:
  assumes "z' \<in> set (mrest U r z)"
      and "\<not> (word_at U (rev (snd z) @ fst z) \<and> word_at U t)"
  shows "(fst z', snd z' @ t) \<in> set (mrest U r (fst z, snd z @ t))"
  using assms
proof (induction U r z arbitrary: z' rule: mrest.induct)
  case (1 U z)
  then show ?case by simp
next
  case (2 U a z)
  then show ?case by (cases z) (auto split: list.splits if_splits)
next
  case (3 U z)
  obtain b a where z: "z = (b, a)" by (cases z) auto
  from "3.prems" have bd: "at_boundary U z" and z': "z' = z"
    by (auto split: if_splits)
  have "at_boundary U (b, a @ t)"
  proof (cases a)
    case Nil
    with bd z "3.prems"(2) show ?thesis by (auto simp: at_boundary_def)
  next
    case (Cons d a')
    with bd z show ?thesis by (simp add: at_boundary_def)
  qed
  with z z' show ?case by simp
next
  case (4 U r1 r2 z)
  from "4.prems" obtain z1 where z1: "z1 \<in> set (mrest U r1 z)" and z': "z' \<in> set (mrest U r2 z1)"
    by auto
  have w: "rev (snd z1) @ fst z1 = rev (snd z) @ fst z"
    using mrest_whole[OF z1] by (metis rev_append rev_rev_ident)
  have a: "(fst z1, snd z1 @ t) \<in> set (mrest U r1 (fst z, snd z @ t))"
    using "4.IH"(1)[OF z1 "4.prems"(2)] .
  have b: "(fst z', snd z' @ t) \<in> set (mrest U r2 (fst z1, snd z1 @ t))"
    using "4.IH"(2)[OF z1 z'] "4.prems"(2) w by simp
  from a b show ?case by auto
next
  case (5 U r1 r2 z)
  then show ?case by auto
next
  case (6 U r z)
  from "6.prems"(1) consider "z' = z"
    | z1 where "z1 \<in> set (mrest U r z)" "length (snd z1) < length (snd z)"
        "z' \<in> set (mrest U (Star r) z1)"
    by (auto simp: in_mrest_Star[of z' U r z])
  then show ?case
  proof cases
    case 1
    then show ?thesis by (simp add: mrest_Star_refl)
  next
    case 2
    have w: "rev (snd z1) @ fst z1 = rev (snd z) @ fst z"
      using mrest_whole[OF 2(1)] by (metis rev_append rev_rev_ident)
    have a: "(fst z1, snd z1 @ t) \<in> set (mrest U r (fst z, snd z @ t))"
      using "6.IH"(1)[OF 2(1) "6.prems"(2)] .
    have b: "(fst z', snd z' @ t) \<in> set (mrest U (Star r) (fst z1, snd z1 @ t))"
      using "6.IH"(2)[of z1 z'] 2 "6.prems"(2) w by simp
    from a b 2(2) show ?thesis by (auto intro: mrest_Star_step)
  qed
qed

lemma mrest_prepend:
  assumes "z' \<in> set (mrest U r z)"
      and "\<not> (word_at U q \<and> word_at U (rev (fst z) @ snd z))"
  shows "(fst z' @ q, snd z') \<in> set (mrest U r (fst z @ q, snd z))"
  using assms
proof (induction U r z arbitrary: z' rule: mrest.induct)
  case (1 U z)
  then show ?case by simp
next
  case (2 U a z)
  then show ?case by (cases z) (auto split: list.splits if_splits)
next
  case (3 U z)
  obtain b a where z: "z = (b, a)" by (cases z) auto
  from "3.prems" have bd: "at_boundary U z" and z': "z' = z"
    by (auto split: if_splits)
  have "at_boundary U (b @ q, a)"
  proof (cases b)
    case Nil
    with bd z "3.prems"(2) show ?thesis by (auto simp: at_boundary_def)
  next
    case (Cons d b')
    with bd z show ?thesis by (simp add: at_boundary_def)
  qed
  with z z' show ?case by simp
next
  case (4 U r1 r2 z)
  from "4.prems" obtain z1 where z1: "z1 \<in> set (mrest U r1 z)" and z': "z' \<in> set (mrest U r2 z1)"
    by auto
  note w = mrest_whole[OF z1]
  have a: "(fst z1 @ q, snd z1) \<in> set (mrest U r1 (fst z @ q, snd z))"
    using "4.IH"(1)[OF z1 "4.prems"(2)] .
  have b: "(fst z' @ q, snd z') \<in> set (mrest U r2 (fst z1 @ q, snd z1))"
    using "4.IH"(2)[OF z1 z'] "4.prems"(2) w by simp
  from a b show ?case by auto
next
  case (5 U r1 r2 z)
  then show ?case by auto
next
  case (6 U r z)
  from "6.prems"(1) consider "z' = z"
    | z1 where "z1 \<in> set (mrest U r z)" "length (snd z1) < length (snd z)"
        "z' \<in> set (mrest U (Star r) z1)"
    by (auto simp: in_mrest_Star[of z' U r z])
  then show ?case
  proof cases
    case 1
    then show ?thesis by (simp add: mrest_Star_refl)
  next
    case 2
    note w = mrest_whole[OF 2(1)]
    have a: "(fst z1 @ q, snd z1) \<in> set (mrest U r (fst z @ q, snd z))"
      using "6.IH"(1)[OF 2(1) "6.prems"(2)] .
    have b: "(fst z' @ q, snd z') \<in> set (mrest U (Star r) (fst z1 @ q, snd z1))"
      using "6.IH"(2)[of z1 z'] 2 "6.prems"(2) w by simp
    from a b 2(2) show ?thesis by (auto intro: mrest_Star_step)
  qed
qed

lemma search_from_iff:
  "search_from U r b a = (\<exists>u v. a = u @ v \<and> mrest U r (rev u @ b, v) \<noteq> [])"
proof (induction a arbitrary: b)
  case Nil
  show ?case by simp
next
  case (Cons d a)
  show ?case
  proof
    assume "search_from U r b (d # a)"
    then consider "mrest U r (b, d # a) \<noteq> []" | "search_from U r (d # b) a"
      by (auto split: if_splits)
    then show "\<exists>u v. d # a = u @ v \<and> mrest U r (rev u @ b, v) \<noteq> []"
    proof cases
      case 1
      then have "d # a = [] @ (d # a) \<and> mrest U r (rev [] @ b, d # a) \<noteq> []" by simp
      then show ?thesis by blast
    next
      case 2
      with Cons.IH obtain u v where "a = u @ v" "mrest U r (rev u @ d # b, v) \<noteq> []"
        by blast
      then have "d # a = (d # u) @ v \<and> mrest U r (rev (d # u) @ b, v) \<noteq> []" by simp
      then show ?thesis by blast
    qed
  next
    assume "\<exists>u v. d # a = u @ v \<and> mrest U r (rev u @ b, v) \<noteq> []"
    then obtain u v where uv: "d # a = u @ v" "mrest U r (rev u @ b, v) \<noteq> []" by blast
    show "search_from U r b (d # a)"
    proof (cases u)
      case Nil
      with uv have "mrest U r (b, d # a) \<noteq> []" by simp
      then show ?thesis by simp
    next
      case (Cons d' u')
      with uv have "a = u' @ v" "mrest U r (rev u' @ d # b, v) \<noteq> []" by auto
      with Cons.IH have "search_from U r (d # b) a" by blast
      then show ?thesis by simp
    qed
  qed
qed

lemma search_iff:
  "search U r s = (\<exists>u v. s = u @ v \<and> mrest U r (rev u, v) \<noteq> [])"
  by (simp add: search_def search_from_iff)


section \<open>Building matches of the suspicious-comment rule\<close>

lemma mrest_Seq_intro:
  "z1 \<in> set (mrest U r1 z) \<Longrightarrow> z2 \<in> set (mrest U r2 z1) \<Longrightarrow> z2 \<in> set (mrest U (Seq r1 r2) z)"
  by auto

lemma mrest_seqs_Cons:
  "set (mrest U (seqs (r # rs)) z) = (\<Union>z1 \<in> set (mrest U r z). set (mrest U (seqs rs) z1))"
  by (cases rs) auto

lemma mrest_alts_intro:
  "r \<in> set rs \<Longrightarrow> z' \<in> set (mrest U r z) \<Longrightarrow> z' \<in> set (mrest U (alts rs) z)"
proof (induction rs rule: alts.induct)
  case 1
  then show ?case by simp
next
  case (2 r')
  then show ?case by simp
next
  case (3 r' v va)
  then show ?case by auto
qed

lemma mrest_Star_atom:
  "list_all (atom_ok U a) x \<Longrightarrow> (rev x @ b, t) \<in> set (mrest U (Star (Atom a)) (b, x @ t))"
proof (induction x arbitrary: b)
  case Nil
  show ?case by (simp add: mrest_Star_refl)
next
  case (Cons d x)
  have 1: "(d # b, x @ t) \<in> set (mrest U (Atom a) (b, (d # x) @ t))"
    using Cons.prems by simp
  have 2: "(rev x @ d # b, t) \<in> set (mrest U (Star (Atom a)) (d # b, x @ t))"
    using Cons.IH[of "d # b"] Cons.prems by simp
  from mrest_Star_step[OF 1 _ 2] show ?case by simp
qed

lemma ascii_tolower_letter:
  assumes "ascii_tolower d = lo" "97 \<le> lo" "lo \<le> 122"
  shows "unicode_tolower U d = lo"
  using assms by (auto simp: unicode_tolower_def ascii_tolower_def split: if_splits)

lemma mrest_lits_ci:
  assumes "list_all (\<lambda>c. 97 \<le> (of_char c :: nat) \<and> (of_char c :: nat) \<le> 122) s"
      and "map ascii_tolower kw = cps s"
  shows "(rev kw @ b, t) \<in> set (mrest U (lits s) (b, kw @ t))"
  using assms
proof (induction s arbitrary: kw b)
  case Nil
  then show ?case by (simp add: lits_def cps_def)
next
  case (Cons c s)
  from Cons.prems(2) obtain d kw' where kw: "kw = d # kw'"
    and d: "ascii_tolower d = of_char c" and kw': "map ascii_tolower kw' = cps s"
    by (cases kw) (auto simp: cps_def)
  from Cons.prems(1) have c: "97 \<le> (of_char c :: nat)" "(of_char c :: nat) \<le> 122"
    and s: "list_all (\<lambda>c. 97 \<le> (of_char c :: nat) \<and> (of_char c :: nat) \<le> 122) s"
    by simp_all
  have lit: "lit c = Atom (LitI (of_char c))"
    using c by (simp add: lit_def ascii_isalpha_def ascii_tolower_def Let_def)
  have 1: "(d # b, kw' @ t) \<in> set (mrest U (lit c) (b, kw @ t))"
    using ascii_tolower_letter[OF d c] by (simp add: lit kw)
  have 2: "(rev kw' @ d # b, t) \<in> set (mrest U (seqs (map lit s)) (d # b, kw' @ t))"
    using Cons.IH[OF s kw', of "d # b"] by (simp add: lits_def)
  have "(rev kw' @ d # b, t) \<in> set (mrest U (seqs (lit c # map lit s)) (b, kw @ t))"
    unfolding mrest_seqs_Cons using 1 2 by blast
  then show ?case by (simp add: lits_def kw)
qed

lemma search_intro:
  "z' \<in> set (mrest U r (rev u, v)) \<Longrightarrow> search U r (u @ v)"
  unfolding search_iff by (metis empty_iff list.set(1))

lemma comment_rx_matches:
  assumes x: "62 \<notin> set x" and y: "62 \<notin> set y"
      and kw: "map ascii_tolower kw \<in>
                 {cps ''instruction'', cps ''ignore'', cps ''system'', cps ''prompt''}"
  shows "search U comment_rx (pre @ cps ''<!--'' @ x @ kw @ y @ cps ''-->'' @ post)"
proof -
  let ?b0 = "rev pre"
  let ?b1 = "rev (cps ''<!--'') @ ?b0"
  let ?b2 = "rev x @ ?b1"
  let ?b3 = "rev kw @ ?b2"
  let ?b4 = "rev y @ ?b3"
  let ?b5 = "rev (cps ''-->'') @ ?b4"
  let ?words = "alts [lits ''instruction'', lits ''ignore'', lits ''system'', lits ''prompt'']"
  have 1: "(?b1, x @ kw @ y @ cps ''-->'' @ post)
             \<in> set (mrest U (lits ''<!--'') (?b0, cps ''<!--'' @ x @ kw @ y @ cps ''-->'' @ post))"
    by (simp add: lits_def lit_def cps_def ascii_isalpha_def)
  have ng: "list_all (atom_ok U (NotIn [Ch 62])) x" "list_all (atom_ok U (NotIn [Ch 62])) y"
    using x y by (auto simp: list_all_iff)
  have 2: "(?b2, kw @ y @ cps ''-->'' @ post)
             \<in> set (mrest U (Star not_gt) (?b1, x @ kw @ y @ cps ''-->'' @ post))"
    unfolding not_gt_def by (rule mrest_Star_atom[OF ng(1)])
  from kw obtain s where s: "s \<in> set [''instruction'', ''ignore'', ''system'', ''prompt'']"
    and kws: "map ascii_tolower kw = cps s"
    by auto
  from s have low: "list_all (\<lambda>c. 97 \<le> (of_char c :: nat) \<and> (of_char c :: nat) \<le> 122) s"
    by auto
  from s have mem: "lits s \<in> set [lits ''instruction'', lits ''ignore'', lits ''system'', lits ''prompt'']"
    by auto
  have 3: "(?b3, y @ cps ''-->'' @ post) \<in> set (mrest U ?words (?b2, kw @ y @ cps ''-->'' @ post))"
    by (rule mrest_alts_intro[OF mem mrest_lits_ci[OF low kws]])
  have 4: "(?b4, cps ''-->'' @ post)
             \<in> set (mrest U (Star not_gt) (?b3, y @ cps ''-->'' @ post))"
    unfolding not_gt_def by (rule mrest_Star_atom[OF ng(2)])
  have 5: "(?b5, post) \<in> set (mrest U (lits ''-->'') (?b4, cps ''-->'' @ post))"
    by (simp add: lits_def lit_def cps_def ascii_isalpha_def)
  have "comment_rx = Seq (lits ''<!--'') (Seq (Star not_gt) (Seq ?words (Seq (Star not_gt) (lits ''-->''))))"
    by (simp add: comment_rx_def)
  then have "(?b5, post) \<in> set (mrest U comment_rx (?b0, cps ''<!--'' @ x @ kw @ y @ cps ''-->'' @ post))"
    using mrest_Seq_intro[OF 1 mrest_Seq_intro[OF 2 mrest_Seq_intro[OF 3 mrest_Seq_intro[OF 4 5]]]]
    by simp
  then show ?thesis by (rule search_intro)
qed

section \<open>The scan loop\<close>

lemma at_least_numeral: "at_least (numeral k) r = Seq r (at_least (pred_numeral k) r)"
  by (simp add: numeral_eq_Suc)

lemma up_to_numeral: "up_to (numeral k) r = opt (Seq r (up_to (pred_numeral k) r))"
  by (simp add: numeral_eq_Suc)

lemmas rx_defs =
  lit_def lits_def opt_def plus_def ws_def ws0_def ws1_def any0_def not_gt_def quote_def
  not_quote_def targets_def prev_prior_def secrets_def tell_verbs_def style_attr_def
  comment_rx_def at_least_numeral up_to_numeral

lemmas char_defs =
  ascii_isalpha_def ascii_tolower_def unicode_tolower_def is_word_def is_space_def
  ascii_db_def ignorecase_fixes_def folds_to_def at_boundary_def

lemmas eval_defs =
  corpus_def INJECTION_PATTERNS_def STRUCTURAL_PATTERNS_def rx_defs char_defs
  search_def matched_def weights_def cps_def mrest.simps(6)

lemma matched_append:
  "matched U (rs @ rs') content = matched U rs content @ matched U rs' content"
  by (simp add: matched_def)

lemma weights_append: "weights (rs @ rs') = weights rs + weights rs'"
  by (simp add: weights_def)

lemma check_patterns_eq:
  "check_patterns U family rules content acc =
     (fst acc + weights (matched U rules content),
      snd acc @ map (\<lambda>(pattern, points, description). detection family description points)
                    (matched U rules content))"
proof (induction rules arbitrary: acc)
  case Nil
  show ?case by (simp add: matched_def weights_def)
next
  case (Cons r rules)
  obtain pattern points description where r: "r = (pattern, points, description)"
    by (cases r) auto
  obtain sc ds where acc: "acc = (sc, ds)"
    by (cases acc) auto
  show ?case
    unfolding r acc using Cons.IH
    by (simp add: matched_def weights_def)
qed

lemma scan_nonempty:
  assumes "content \<noteq> []"
  shows "score (scan U self content) =
           weights (matched U (compiled_injection self) content)
           + weights (matched U (compiled_structural self) content)"
    and "detections (scan U self content) =
           map (\<lambda>(pattern, points, description). detection ''Pattern'' description points)
               (matched U (compiled_injection self) content)
           @ map (\<lambda>(pattern, points, description). detection ''Structure'' description points)
               (matched U (compiled_structural self) content)"
    and "is_safe (scan U self content) = (score (scan U self content) < 50)"
  using assms
  by (simp_all add: scan_def Let_def mk_ScanResult_def post_init_def check_patterns_eq
        BLOCK_THRESHOLD_def)

lemma scan_empty: "scan U self [] = \<lparr>is_safe = True, score = 0, detections = []\<rparr>"
  by (simp add: scan_def mk_ScanResult_def post_init_def)

lemma no_match_in_empty: "matched U corpus [] = []"
  by (simp add: eval_defs)

lemma score_init: "score (scan U init content) = weights (matched U corpus content)"
proof (cases "content = []")
  case True
  then show ?thesis by (simp add: scan_empty no_match_in_empty weights_def)
next
  case False
  then show ?thesis
    by (simp add: scan_nonempty(1) init_def corpus_def matched_append weights_append)
qed

lemma detections_init:
  "length (detections (scan U init content)) = length (matched U corpus content)"
proof (cases "content = []")
  case True
  then show ?thesis by (simp add: scan_empty no_match_in_empty)
next
  case False
  then show ?thesis
    by (simp add: scan_nonempty(2) init_def corpus_def matched_append)
qed

section \<open>The counted matcher returns\<close>

lemma collect_Some:
  "(\<And>z. z \<in> set zs \<Longrightarrow> f z = Some (g z)) \<Longrightarrow> collect f zs = Some (concat (map g zs))"
  by (induction zs) auto

lemma fuel_Suc:
  "eventually (\<lambda>n. P (Suc n)) sequentially \<Longrightarrow> eventually P sequentially"
  by simp

lemma mrest_fuel_enough:
  "eventually (\<lambda>n. mrest_fuel n U r z = Some (mrest U r z)) sequentially"
proof (induction U r z rule: mrest.induct)
  case (1 U z)
  have step: "eventually (\<lambda>n. mrest_fuel (Suc n) U Eps z = Some (mrest U Eps z)) sequentially"
    by simp
  show ?case by (rule fuel_Suc) (rule step)
next
  case (2 U a z)
  have step: "eventually (\<lambda>n. mrest_fuel (Suc n) U (Atom a) z = Some (mrest U (Atom a) z)) sequentially"
    by simp
  show ?case by (rule fuel_Suc) (rule step)
next
  case (3 U z)
  have step: "eventually (\<lambda>n. mrest_fuel (Suc n) U Bnd z = Some (mrest U Bnd z)) sequentially"
    by simp
  show ?case by (rule fuel_Suc) (rule step)
next
  case (4 U r1 r2 z)
  have 1: "eventually (\<lambda>n. mrest_fuel n U r1 z = Some (mrest U r1 z)) sequentially"
    by (rule "4.IH"(1))
  have 2: "eventually (\<lambda>n. \<forall>z1 \<in> set (mrest U r1 z).
                          mrest_fuel n U r2 z1 = Some (mrest U r2 z1)) sequentially"
    by (rule eventually_ball_finite) (auto intro: "4.IH"(2))
  have step: "eventually (\<lambda>n. mrest_fuel (Suc n) U (Seq r1 r2) z = Some (mrest U (Seq r1 r2) z))
          sequentially"
    using 1 2 by eventually_elim (simp add: collect_Some)
  show ?case by (rule fuel_Suc) (rule step)
next
  case (5 U r1 r2 z)
  have step: "eventually (\<lambda>n. mrest_fuel (Suc n) U (Alt r1 r2) z = Some (mrest U (Alt r1 r2) z))
          sequentially"
    using "5.IH"(1) "5.IH"(2) by eventually_elim simp
  show ?case by (rule fuel_Suc) (rule step)
next
  case (6 U r z)
  let ?zs = "filter (\<lambda>z'. length (snd z') < length (snd z)) (mrest U r z)"
  have 1: "eventually (\<lambda>n. mrest_fuel n U r z = Some (mrest U r z)) sequentially"
    by (rule "6.IH"(1))
  have 2: "eventually (\<lambda>n. \<forall>z1 \<in> set ?zs.
                          mrest_fuel n U (Star r) z1 = Some (mrest U (Star r) z1)) sequentially"
    by (rule eventually_ball_finite) (auto intro: "6.IH"(2))
  have step: "eventually (\<lambda>n. mrest_fuel (Suc n) U (Star r) z = Some (mrest U (Star r) z))
          sequentially"
    using 1 2
  proof eventually_elim
    case (elim n)
    have "collect (mrest_fuel n U (Star r)) ?zs
            = Some (concat (map (mrest U (Star r)) ?zs))"
    proof (rule collect_Some)
      fix z1 assume "z1 \<in> set ?zs"
      with elim(2) show "mrest_fuel n U (Star r) z1 = Some (mrest U (Star r) z1)"
        by blast
    qed
    with elim(1) show ?case
      by (simp add: mrest.simps(6)[of U r z])
  qed
  show ?case by (rule fuel_Suc) (rule step)
qed

lemma search_from_fuel_enough:
  "eventually (\<lambda>n. search_from_fuel n U r b a = Some (search_from U r b a)) sequentially"
proof (induction a arbitrary: b)
  case Nil
  show ?case
    using mrest_fuel_enough[of U r "(b, [])"] by eventually_elim simp
next
  case (Cons d a)
  show ?case
    using mrest_fuel_enough[of U r "(b, d # a)"] Cons.IH[of "d # b"]
    by eventually_elim simp
qed

lemma check_patterns_run_enough:
  "eventually (\<lambda>n. check_patterns_run n U family rules (PyStr content) acc
                     = Returns (check_patterns U family rules content acc)) sequentially"
proof (induction rules arbitrary: acc)
  case Nil
  show ?case by simp
next
  case (Cons r rules)
  obtain pattern points description where r: "r = (pattern, points, description)"
    by (cases r) auto
  obtain sc ds where acc: "acc = (sc, ds)"
    by (cases acc) auto
  show ?case
    unfolding r acc
    using search_from_fuel_enough[of U pattern "[]" content]
      Cons.IH[of "(sc + points, ds @ [detection family description points])"]
      Cons.IH[of "(sc, ds)"]
    by eventually_elim (simp add: search_def)
qed

lemma scan_run_enough:
  "eventually (\<lambda>n. scan_run n U self (PyStr content) = Returns (scan U self content))
     sequentially"
  using check_patterns_run_enough[of U "''Pattern''" "compiled_injection self" content "(0, [])"]
    check_patterns_run_enough[of U "''Structure''" "compiled_structural self" content
      "check_patterns U ''Pattern'' (compiled_injection self) content (0, [])"]
  by eventually_elim (simp add: scan_run_def scan_def Let_def)

section \<open>Concatenation\<close>

lemma search_append:
  assumes "search U r A" and "\<not> (ends_with_word U A \<and> starts_with_word U B)"
  shows "search U r (A @ B)"
proof -
  from assms(1) obtain u v z' where A: "A = u @ v" and z': "z' \<in> set (mrest U r (rev u, v))"
    unfolding search_iff by (metis last_in_set)
  have "\<not> (word_at U (rev (snd (rev u, v)) @ fst (rev u, v)) \<and> word_at U B)"
    using assms(2) A by (simp add: ends_with_word_def starts_with_word_def)
  from mrest_append[OF z' this] have "(fst z', snd z' @ B) \<in> set (mrest U r (rev u, v @ B))"
    by simp
  from search_intro[OF this] A show ?thesis by simp
qed

lemma search_prepend:
  assumes "search U r B" and "\<not> (ends_with_word U A \<and> starts_with_word U B)"
  shows "search U r (A @ B)"
proof -
  from assms(1) obtain u v z' where B: "B = u @ v" and z': "z' \<in> set (mrest U r (rev u, v))"
    unfolding search_iff by (metis last_in_set)
  have "\<not> (word_at U (rev A) \<and> word_at U (rev (fst (rev u, v)) @ snd (rev u, v)))"
    using assms(2) B by (simp add: ends_with_word_def starts_with_word_def)
  from mrest_prepend[OF z' this]
  have "(fst z' @ rev A, snd z') \<in> set (mrest U r (rev (A @ u), v))"
    by simp
  from search_intro[OF this] B show ?thesis by simp
qed

lemma mrest_consumes:
  "z' \<in> set (mrest U r z) \<Longrightarrow> length (snd z') + min_len r \<le> length (snd z)"
proof (induction U r z arbitrary: z' rule: mrest.induct)
  case (1 U z)
  then show ?case by simp
next
  case (2 U a z)
  then show ?case by (cases z) (auto split: list.splits if_splits)
next
  case (3 U z)
  then show ?case by (simp split: if_splits)
next
  case (4 U r1 r2 z)
  from "4.prems" obtain z1 where z1: "z1 \<in> set (mrest U r1 z)" and z': "z' \<in> set (mrest U r2 z1)"
    by auto
  from "4.IH"(1)[OF z1] "4.IH"(2)[OF z1 z'] show ?case by simp
next
  case (5 U r1 r2 z)
  from "5.prems" consider "z' \<in> set (mrest U r1 z)" | "z' \<in> set (mrest U r2 z)"
    by auto
  then show ?case
  proof cases
    case 1
    from "5.IH"(1)[OF 1] show ?thesis by simp
  next
    case 2
    from "5.IH"(2)[OF 2] show ?thesis by simp
  qed
next
  case (6 U r z)
  from "6.prems" consider "z' = z"
    | z1 where "z1 \<in> set (mrest U r z)" "length (snd z1) < length (snd z)"
        "z' \<in> set (mrest U (Star r) z1)"
    by (auto simp: in_mrest_Star[of z' U r z])
  then show ?case
  proof cases
    case 1
    then show ?thesis by simp
  next
    case 2
    from "6.IH"(2)[of z1 z'] 2 show ?thesis by simp
  qed
qed

lemma mrest_consumed_before:
  assumes "z' \<in> set (mrest U r z)"
  shows "length (fst z) + min_len r \<le> length (fst z')"
proof -
  have "length (fst z') + length (snd z') = length (fst z) + length (snd z)"
    using arg_cong[OF mrest_whole[OF assms], of length] by simp
  with mrest_consumes[OF assms] show ?thesis by simp
qed

text \<open>A pattern whose every \<open>\b\<close> is followed by a consumed character keeps its matches
  whatever is appended.\<close>

lemma mrest_append_free:
  assumes "z' \<in> set (mrest U r z)" and "tail_ok r f" and "f \<Longrightarrow> snd z' \<noteq> []"
  shows "(fst z', snd z' @ t) \<in> set (mrest U r (fst z, snd z @ t))"
  using assms
proof (induction U r z arbitrary: z' f rule: mrest.induct)
  case (1 U z)
  then show ?case by simp
next
  case (2 U a z)
  then show ?case by (cases z) (auto split: list.splits if_splits)
next
  case (3 U z)
  obtain b a where z: "z = (b, a)" by (cases z) auto
  from "3.prems" have bd: "at_boundary U z" and z': "z' = z" and f: f
    by (auto split: if_splits)
  from "3.prems"(3)[OF f] z z' obtain d a' where "a = d # a'"
    by (cases a) auto
  with bd z have "at_boundary U (b, a @ t)"
    by (simp add: at_boundary_def)
  with z z' show ?case by simp
next
  case (4 U r1 r2 z)
  from "4.prems"(1) obtain z1 where z1: "z1 \<in> set (mrest U r1 z)"
    and z': "z' \<in> set (mrest U r2 z1)"
    by auto
  from "4.prems"(2) have t1: "tail_ok r1 (f \<or> 0 < min_len r2)" and t2: "tail_ok r2 f"
    by simp_all
  have ne: "snd z1 \<noteq> []" if "f \<or> 0 < min_len r2"
    using that mrest_consumes[OF z'] "4.prems"(3) by (cases "snd z'") auto
  have a: "(fst z1, snd z1 @ t) \<in> set (mrest U r1 (fst z, snd z @ t))"
    using "4.IH"(1)[OF z1 t1 ne] .
  have b: "(fst z', snd z' @ t) \<in> set (mrest U r2 (fst z1, snd z1 @ t))"
    using "4.IH"(2)[OF z1 z' t2 "4.prems"(3)] by simp
  from a b show ?case by auto
next
  case (5 U r1 r2 z)
  from "5.prems"(1) consider "z' \<in> set (mrest U r1 z)" | "z' \<in> set (mrest U r2 z)"
    by auto
  then show ?case
  proof cases
    case 1
    from "5.prems"(2) have ok: "tail_ok r1 f" by simp
    from "5.IH"(1)[OF 1 ok "5.prems"(3)] show ?thesis by simp
  next
    case 2
    from "5.prems"(2) have ok: "tail_ok r2 f" by simp
    from "5.IH"(2)[OF 2 ok "5.prems"(3)] show ?thesis by simp
  qed
next
  case (6 U r z)
  from "6.prems"(1) consider "z' = z"
    | z1 where "z1 \<in> set (mrest U r z)" "length (snd z1) < length (snd z)"
        "z' \<in> set (mrest U (Star r) z1)"
    by (auto simp: in_mrest_Star[of z' U r z])
  then show ?case
  proof cases
    case 1
    then show ?thesis by (simp add: mrest_Star_refl)
  next
    case 2
    from "6.prems"(2) have tr: "tail_ok r f" by simp
    have ne: "snd z1 \<noteq> []" if f
      using that mrest_consumes[OF 2(3)] "6.prems"(3) by (cases "snd z'") auto
    have a: "(fst z1, snd z1 @ t) \<in> set (mrest U r (fst z, snd z @ t))"
      using "6.IH"(1)[OF 2(1) tr ne] .
    have b: "(fst z', snd z' @ t) \<in> set (mrest U (Star r) (fst z1, snd z1 @ t))"
      using "6.IH"(2)[of z1 z' f] 2 "6.prems"(2,3) by simp
    from a b 2(2) show ?thesis by (auto intro: mrest_Star_step)
  qed
qed

lemma mrest_prepend_free:
  assumes "z' \<in> set (mrest U r z)" and "head_ok r f" and "f \<Longrightarrow> fst z \<noteq> []"
  shows "(fst z' @ q, snd z') \<in> set (mrest U r (fst z @ q, snd z))"
  using assms
proof (induction U r z arbitrary: z' f rule: mrest.induct)
  case (1 U z)
  then show ?case by simp
next
  case (2 U a z)
  then show ?case by (cases z) (auto split: list.splits if_splits)
next
  case (3 U z)
  obtain b a where z: "z = (b, a)" by (cases z) auto
  from "3.prems" have bd: "at_boundary U z" and z': "z' = z" and f: f
    by (auto split: if_splits)
  from "3.prems"(3)[OF f] z obtain d b' where "b = d # b'"
    by (cases b) auto
  with bd z have "at_boundary U (b @ q, a)"
    by (simp add: at_boundary_def)
  with z z' show ?case by simp
next
  case (4 U r1 r2 z)
  from "4.prems"(1) obtain z1 where z1: "z1 \<in> set (mrest U r1 z)"
    and z': "z' \<in> set (mrest U r2 z1)"
    by auto
  from "4.prems"(2) have h1: "head_ok r1 f" and h2: "head_ok r2 (f \<or> 0 < min_len r1)"
    by simp_all
  have ne: "fst z1 \<noteq> []" if "f \<or> 0 < min_len r1"
    using that mrest_consumed_before[OF z1] "4.prems"(3) by (cases "fst z") auto
  have a: "(fst z1 @ q, snd z1) \<in> set (mrest U r1 (fst z @ q, snd z))"
    using "4.IH"(1)[OF z1 h1 "4.prems"(3)] .
  have b: "(fst z' @ q, snd z') \<in> set (mrest U r2 (fst z1 @ q, snd z1))"
    using "4.IH"(2)[OF z1 z' h2 ne] by simp
  from a b show ?case by auto
next
  case (5 U r1 r2 z)
  from "5.prems"(1) consider "z' \<in> set (mrest U r1 z)" | "z' \<in> set (mrest U r2 z)"
    by auto
  then show ?case
  proof cases
    case 1
    from "5.prems"(2) have ok: "head_ok r1 f" by simp
    from "5.IH"(1)[OF 1 ok "5.prems"(3)] show ?thesis by simp
  next
    case 2
    from "5.prems"(2) have ok: "head_ok r2 f" by simp
    from "5.IH"(2)[OF 2 ok "5.prems"(3)] show ?thesis by simp
  qed
next
  case (6 U r z)
  from "6.prems"(1) consider "z' = z"
    | z1 where "z1 \<in> set (mrest U r z)" "length (snd z1) < length (snd z)"
        "z' \<in> set (mrest U (Star r) z1)"
    by (auto simp: in_mrest_Star[of z' U r z])
  then show ?case
  proof cases
    case 1
    then show ?thesis by (simp add: mrest_Star_refl)
  next
    case 2
    from "6.prems"(2) have hr: "head_ok r f" by simp
    have ne: "fst z1 \<noteq> []" if f
      using that mrest_consumed_before[OF 2(1)] "6.prems"(3) by (cases "fst z") auto
    have a: "(fst z1 @ q, snd z1) \<in> set (mrest U r (fst z @ q, snd z))"
      using "6.IH"(1)[OF 2(1) hr "6.prems"(3)] .
    have b: "(fst z' @ q, snd z') \<in> set (mrest U (Star r) (fst z1 @ q, snd z1))"
      using "6.IH"(2)[of z1 z' f] 2 "6.prems"(2) ne by simp
    from a b 2(2) show ?thesis by (auto intro: mrest_Star_step)
  qed
qed

lemma search_append_free:
  assumes "search U r A" and "tail_ok r False"
  shows "search U r (A @ B)"
proof -
  from assms(1) obtain u v z' where A: "A = u @ v" and z': "z' \<in> set (mrest U r (rev u, v))"
    unfolding search_iff by (metis last_in_set)
  from mrest_append_free[OF z' assms(2)]
  have "(fst z', snd z' @ B) \<in> set (mrest U r (rev u, v @ B))"
    by simp
  from search_intro[OF this] A show ?thesis by simp
qed

lemma search_prepend_free:
  assumes "search U r B" and "head_ok r False"
  shows "search U r (A @ B)"
proof -
  from assms(1) obtain u v z' where B: "B = u @ v" and z': "z' \<in> set (mrest U r (rev u, v))"
    unfolding search_iff by (metis last_in_set)
  from mrest_prepend_free[OF z' assms(2), of "rev A"]
  have "(fst z' @ rev A, snd z') \<in> set (mrest U r (rev (A @ u), v))"
    by simp
  from search_intro[OF this] B show ?thesis by simp
qed

lemma weights_matched_sum:
  "weights (matched U rules content) =
     sum_list (map (\<lambda>(pattern, points, description).
                      if search U pattern content then points else 0) rules)"
  by (induction rules) (auto simp: matched_def weights_def)

lemma in_matched:
  "(pattern, points, description) \<in> set (matched U rules content) \<longleftrightarrow>
     (pattern, points, description) \<in> set rules \<and> search U pattern content"
  by (auto simp: matched_def)

lemma corpus_weights_positive: "list_all (\<lambda>(pattern, points, description). 0 < points) corpus"
  by (simp add: corpus_def INJECTION_PATTERNS_def STRUCTURAL_PATTERNS_def)

lemma corpus_weight_pos:
  "(pattern, points, description) \<in> set corpus \<Longrightarrow> 0 < points"
  using corpus_weights_positive by (auto simp: list_all_iff)

lemma weights_matched_mono:
  assumes "\<And>pattern points description.
             (pattern, points, description) \<in> set corpus \<Longrightarrow>
             search U pattern A \<Longrightarrow> search U pattern C"
  shows "weights (matched U corpus A) \<le> weights (matched U corpus C)"
  unfolding weights_matched_sum
proof (rule sum_list_mono)
  fix r assume r: "r \<in> set corpus"
  obtain pattern points description where eq: "r = (pattern, points, description)"
    by (cases r) auto
  from r eq have "0 < points" by (auto dest: corpus_weight_pos)
  with assms[of pattern points description] r eq
  show "(case r of (pattern, points, description) \<Rightarrow> if search U pattern A then points else 0)
        \<le> (case r of (pattern, points, description) \<Rightarrow> if search U pattern C then points else 0)"
    by (simp add: eq)
qed

lemma sum_list_add_le:
  fixes f g h :: "'a \<Rightarrow> int"
  assumes "\<And>r. r \<in> set rs \<Longrightarrow> f r + g r \<le> h r"
  shows "sum_list (map f rs) + sum_list (map g rs) \<le> sum_list (map h rs)"
  using assms
proof (induction rs)
  case Nil
  show ?case by simp
next
  case (Cons r rs)
  have "f r + g r \<le> h r" using Cons.prems by simp
  moreover have "sum_list (map f rs) + sum_list (map g rs) \<le> sum_list (map h rs)"
    using Cons.IH Cons.prems by simp
  ultimately show ?case by simp
qed

lemma sum_list_add_eq:
  fixes f g h :: "'a \<Rightarrow> int"
  assumes "\<And>r. r \<in> set rs \<Longrightarrow> h r = f r + g r"
  shows "sum_list (map h rs) = sum_list (map f rs) + sum_list (map g rs)"
  using assms
proof (induction rs)
  case Nil
  show ?case by simp
next
  case (Cons r rs)
  have "h r = f r + g r" using Cons.prems by simp
  moreover have "sum_list (map h rs) = sum_list (map f rs) + sum_list (map g rs)"
    using Cons.IH Cons.prems by simp
  ultimately show ?case by simp
qed

lemma weights_matched_superadditive:
  assumes A: "\<And>pattern points description.
                (pattern, points, description) \<in> set corpus \<Longrightarrow>
                search U pattern A \<Longrightarrow> search U pattern C"
      and B: "\<And>pattern points description.
                (pattern, points, description) \<in> set corpus \<Longrightarrow>
                search U pattern B \<Longrightarrow> search U pattern C"
      and disj: "set (matched U corpus A) \<inter> set (matched U corpus B) = {}"
  shows "weights (matched U corpus A) + weights (matched U corpus B)
           \<le> weights (matched U corpus C)"
  unfolding weights_matched_sum
proof (rule sum_list_add_le)
  fix r assume r: "r \<in> set corpus"
  obtain pattern points description where eq: "r = (pattern, points, description)"
    by (cases r) auto
  from r eq have pos: "0 < points" by (auto dest: corpus_weight_pos)
  from disj r eq have "\<not> (search U pattern A \<and> search U pattern B)"
    using in_matched[of pattern points description U corpus] by blast
  with pos A[of pattern points description] B[of pattern points description] r eq
  show "(case r of (pattern, points, description) \<Rightarrow> if search U pattern A then points else 0)
        + (case r of (pattern, points, description) \<Rightarrow> if search U pattern B then points else 0)
        \<le> (case r of (pattern, points, description) \<Rightarrow> if search U pattern C then points else 0)"
    by (auto simp: eq)
qed

lemma weights_matched_additive:
  assumes A: "\<And>pattern points description.
                (pattern, points, description) \<in> set corpus \<Longrightarrow>
                search U pattern A \<Longrightarrow> search U pattern C"
      and B: "\<And>pattern points description.
                (pattern, points, description) \<in> set corpus \<Longrightarrow>
                search U pattern B \<Longrightarrow> search U pattern C"
      and disj: "set (matched U corpus A) \<inter> set (matched U corpus B) = {}"
      and sub: "set (matched U corpus C) \<subseteq> set (matched U corpus A) \<union> set (matched U corpus B)"
  shows "weights (matched U corpus C)
           = weights (matched U corpus A) + weights (matched U corpus B)"
  unfolding weights_matched_sum
proof (rule sum_list_add_eq)
  fix r assume r: "r \<in> set corpus"
  obtain pattern points description where eq: "r = (pattern, points, description)"
    by (cases r) auto
  from disj r eq have 1: "\<not> (search U pattern A \<and> search U pattern B)"
    using in_matched[of pattern points description U corpus] by blast
  from sub r eq have 2: "search U pattern C \<Longrightarrow> search U pattern A \<or> search U pattern B"
    using in_matched[of pattern points description U corpus] by blast
  from 1 2 A[of pattern points description] B[of pattern points description] r eq
  show "(case r of (pattern, points, description) \<Rightarrow> if search U pattern C then points else 0)
        = (case r of (pattern, points, description) \<Rightarrow> if search U pattern A then points else 0)
        + (case r of (pattern, points, description) \<Rightarrow> if search U pattern B then points else 0)"
    by (auto simp: eq)
qed

section \<open>Rules with a word boundary at an edge\<close>

lemma corpus_edge_split:
  "corpus = take 13 INJECTION_PATTERNS @ edge_boundary_rules
              @ drop 17 INJECTION_PATTERNS @ STRUCTURAL_PATTERNS"
proof -
  have "take 4 (drop 13 INJECTION_PATTERNS) @ drop 4 (drop 13 INJECTION_PATTERNS)
          = drop 13 INJECTION_PATTERNS"
    by (rule append_take_drop_id)
  then have "edge_boundary_rules @ drop 17 INJECTION_PATTERNS = drop 13 INJECTION_PATTERNS"
    by (simp add: edge_boundary_rules_def)
  then have "take 13 INJECTION_PATTERNS @ edge_boundary_rules @ drop 17 INJECTION_PATTERNS
               = INJECTION_PATTERNS"
    by simp
  then show ?thesis by (simp add: corpus_def)
qed

lemma other_rules_edge_free:
  "list_all (\<lambda>(pattern, points, description). head_ok pattern False \<and> tail_ok pattern False)
     (take 13 INJECTION_PATTERNS @ drop 17 INJECTION_PATTERNS @ STRUCTURAL_PATTERNS)"
  by (simp add: INJECTION_PATTERNS_def STRUCTURAL_PATTERNS_def rx_defs)

lemma corpus_rule_cases:
  assumes "(pattern, points, description) \<in> set corpus"
  shows "(pattern, points, description) \<in> set edge_boundary_rules
         \<or> head_ok pattern False \<and> tail_ok pattern False"
proof -
  from assms consider "(pattern, points, description) \<in> set edge_boundary_rules"
    | "(pattern, points, description)
         \<in> set (take 13 INJECTION_PATTERNS @ drop 17 INJECTION_PATTERNS @ STRUCTURAL_PATTERNS)"
    unfolding corpus_edge_split by auto
  then show ?thesis
  proof cases
    case 1
    then show ?thesis by simp
  next
    case 2
    with other_rules_edge_free show ?thesis
      unfolding list_all_iff by blast
  qed
qed

lemma corpus_rule_kept_left:
  assumes "\<not> (ends_with_word U A \<and> starts_with_word U B)
           \<or> matched U edge_boundary_rules A = [] \<and> matched U edge_boundary_rules B = []"
      and "(pattern, points, description) \<in> set corpus"
      and "search U pattern A"
  shows "search U pattern (A @ B)"
proof (cases "\<not> (ends_with_word U A \<and> starts_with_word U B)")
  case True
  then show ?thesis by (rule search_append[OF assms(3)])
next
  case False
  with assms(1) have "matched U edge_boundary_rules A = []" by simp
  with assms(3) have "(pattern, points, description) \<notin> set edge_boundary_rules"
    using in_matched[of pattern points description U edge_boundary_rules A] by auto
  with corpus_rule_cases[OF assms(2)] have "tail_ok pattern False" by simp
  then show ?thesis by (rule search_append_free[OF assms(3)])
qed

lemma corpus_rule_kept_right:
  assumes "\<not> (ends_with_word U A \<and> starts_with_word U B)
           \<or> matched U edge_boundary_rules A = [] \<and> matched U edge_boundary_rules B = []"
      and "(pattern, points, description) \<in> set corpus"
      and "search U pattern B"
  shows "search U pattern (A @ B)"
proof (cases "\<not> (ends_with_word U A \<and> starts_with_word U B)")
  case True
  then show ?thesis by (rule search_prepend[OF assms(3)])
next
  case False
  with assms(1) have "matched U edge_boundary_rules B = []" by simp
  with assms(3) have "(pattern, points, description) \<notin> set edge_boundary_rules"
    using in_matched[of pattern points description U edge_boundary_rules B] by auto
  with corpus_rule_cases[OF assms(2)] have "head_ok pattern False" by simp
  then show ?thesis by (rule search_prepend_free[OF assms(3)])
qed

section \<open>The suspicious-comment rule in a scan\<close>

lemma corpus_split:
  "corpus = INJECTION_PATTERNS @ take 5 STRUCTURAL_PATTERNS
              @ [(comment_rx, 25, ''Suspicious HTML comment'')] @ drop 6 STRUCTURAL_PATTERNS"
  by (simp add: corpus_def STRUCTURAL_PATTERNS_def)

lemma comment_detection:
  "detection ''Structure'' ''Suspicious HTML comment'' 25
     = ''Structure: Suspicious HTML comment (+25)''"
  by (simp add: detection_def str_int_def digits.simps)

lemma comment_rule_contributes:
  assumes "search U comment_rx content"
  shows "''Structure: Suspicious HTML comment (+25)'' \<in> set (detections (scan U init content))"
    and "score (scan U init content) = 25 + weights (matched U rules_besides_comment content)"
proof -
  have ne: "content \<noteq> []"
    using assms no_match_in_empty[of U]
    by (auto simp: corpus_split matched_def)
  have "(comment_rx, 25, ''Suspicious HTML comment'') \<in> set STRUCTURAL_PATTERNS"
    by (simp add: STRUCTURAL_PATTERNS_def)
  with assms have "(comment_rx, 25, ''Suspicious HTML comment'')
                     \<in> set (matched U (compiled_structural init) content)"
    by (simp add: in_matched init_def)
  then have "detection ''Structure'' ''Suspicious HTML comment'' 25
               \<in> set (detections (scan U init content))"
    unfolding scan_nonempty(2)[OF ne] by force
  then show "''Structure: Suspicious HTML comment (+25)'' \<in> set (detections (scan U init content))"
    by (simp add: comment_detection)
  have "weights (matched U [(comment_rx, 25, ''Suspicious HTML comment'')] content) = 25"
    using assms by (simp add: matched_def weights_def)
  then show "score (scan U init content) = 25 + weights (matched U rules_besides_comment content)"
    unfolding score_init corpus_split rules_besides_comment_def
    by (simp only: matched_append weights_append)
qed

section \<open>Properties of the scan\<close>

text \<open>
  C1.  For every content, the result of \<open>scan\<close> is safe exactly when its score is
  strictly below the block threshold 50.
\<close>

theorem scan_is_safe_iff_below_threshold:
  "is_safe (scan U self content) = (score (scan U self content) < 50)"
proof (cases "content = []")
  case True
  then show ?thesis by (simp add: scan_empty)
next
  case False
  then show ?thesis by (rule scan_nonempty(3))
qed

text \<open>
  C2.  For every content, the score is the sum of the weights of the rules of the corpus
  (lexical, then structural) whose matcher occurs in the content, each such rule counted
  once however often it occurs, and there are as many detections as matched rules.
\<close>

theorem scan_score_sums_matched_rules:
  "score (scan U init content) = weights (matched U corpus content)
   \<and> length (detections (scan U init content)) = length (matched U corpus content)"
  by (simp add: score_init detections_init)

text \<open>
  C3.  On the empty string \<open>scan\<close> returns score 0, safe, no detections; it does so for
  every rule set, so no rule is consulted.
\<close>

theorem scan_empty_is_safe:
  "scan U self [] = \<lparr>is_safe = True, score = 0, detections = []\<rparr>"
  by (rule scan_empty)

text \<open>
  C4.  \<open>scan\<close> is total on strings: called with any \<open>str\<close> (any sequence of code points,
  the empty one included) the call raises nothing and returns.  Some number of nested
  matcher calls suffices for every rule of the detector, and the outcome is then the scan
  result, never \<open>Raises\<close> and never \<open>Unfinished\<close>.
\<close>

theorem scan_returns_on_str:
  "\<exists>n. scan_run n U self (PyStr content) = Returns (scan U self content)"
  using scan_run_enough[of U self content] unfolding eventually_sequentially by blast

text \<open>
  C5 as stated fails: \<open>jailbreak\<close> scores 50, but in \<open>jailbreaks\<close> the rule
  \<open>\bJAILBREAK\b\<close> finds no word boundary after the \<open>k\<close>, and the score drops to 0.
\<close>

theorem concat_monotone_counterexample:
  "\<not> max (score (scan ascii_db init (cps ''jailbreak''))) (score (scan ascii_db init (cps ''s'')))
       \<le> score (scan ascii_db init (cps ''jailbreak'' @ cps ''s''))"
proof -
  have 1: "weights (matched ascii_db corpus (cps ''jailbreak'')) = 50"
    by (simp add: eval_defs)
  have 2: "weights (matched ascii_db corpus (cps ''s'')) = 0"
    by (simp add: eval_defs)
  have 3: "weights (matched ascii_db corpus (cps ''jailbreak'' @ cps ''s'')) = 0"
    by (simp add: eval_defs)
  show ?thesis
    by (simp add: score_init 1 2 3)
qed

text \<open>
  C5, amended.  For every pair of strings \<open>A\<close> and \<open>B\<close>, the score of \<open>A + B\<close> is at
  least the larger of the scores of \<open>A\<close> and \<open>B\<close>, unless \<open>A\<close> ends with a word character,
  \<open>B\<close> begins with one, and one of the four rules with \<open>\b\<close> at an edge of its pattern
  (jailbreak keyword, DAN mode, developer mode, unrestricted mode) matches \<open>A\<close> or \<open>B\<close>.
\<close>

theorem concat_monotone_unless_edge_rule_cut:
  assumes "\<not> (ends_with_word U A \<and> starts_with_word U B)
           \<or> matched U edge_boundary_rules A = [] \<and> matched U edge_boundary_rules B = []"
  shows "max (score (scan U init A)) (score (scan U init B)) \<le> score (scan U init (A @ B))"
proof -
  have "weights (matched U corpus A) \<le> weights (matched U corpus (A @ B))"
    by (rule weights_matched_mono) (rule corpus_rule_kept_left[OF assms])
  moreover have "weights (matched U corpus B) \<le> weights (matched U corpus (A @ B))"
    by (rule weights_matched_mono) (rule corpus_rule_kept_right[OF assms])
  ultimately show ?thesis by (simp add: score_init)
qed

text \<open>
  The amended C5 at two triggering phrases joined letter to letter:
  \<open>A = IGNORE PROMPTS\<close>, \<open>B = "ACT AS "\<close>.
\<close>

theorem concat_monotone_unless_edge_rule_cut_witness:
  "ends_with_word ascii_db (cps ''IGNORE PROMPTS'') \<and> starts_with_word ascii_db (cps ''ACT AS '')
   \<and> matched ascii_db edge_boundary_rules (cps ''IGNORE PROMPTS'') = []
   \<and> matched ascii_db edge_boundary_rules (cps ''ACT AS '') = []
   \<and> max (score (scan ascii_db init (cps ''IGNORE PROMPTS'')))
          (score (scan ascii_db init (cps ''ACT AS '')))
       \<le> score (scan ascii_db init (cps ''IGNORE PROMPTS'' @ cps ''ACT AS ''))"
proof -
  have w: "ends_with_word ascii_db (cps ''IGNORE PROMPTS'')"
          "starts_with_word ascii_db (cps ''ACT AS '')"
    by (simp_all add: ends_with_word_def starts_with_word_def cps_def char_defs)
  have e: "matched ascii_db edge_boundary_rules (cps ''IGNORE PROMPTS'') = []"
          "matched ascii_db edge_boundary_rules (cps ''ACT AS '') = []"
    by (simp_all add: edge_boundary_rules_def eval_defs)
  have h: "\<not> (ends_with_word ascii_db (cps ''IGNORE PROMPTS'')
               \<and> starts_with_word ascii_db (cps ''ACT AS ''))
           \<or> matched ascii_db edge_boundary_rules (cps ''IGNORE PROMPTS'') = []
             \<and> matched ascii_db edge_boundary_rules (cps ''ACT AS '') = []"
    using e by simp
  show ?thesis
    using concat_monotone_unless_edge_rule_cut[OF h] w e by simp
qed

text \<open>
  C6 as stated fails in both directions.  No rule matches \<open>"act "\<close> and none matches
  \<open>"as "\<close>, so their rule sets are disjoint and both score 0, but \<open>"act as "\<close> triggers the
  role-hijacking rule \<open>ACT\s+AS\s+\<close> and scores 50.  And \<open>jailbreak\<close> scores 50, \<open>s\<close>
  matches no rule, but \<open>jailbreaks\<close> scores 0.
\<close>

theorem concat_additive_counterexample:
  "(set (matched ascii_db corpus (cps ''act '')) \<inter> set (matched ascii_db corpus (cps ''as '')) = {}
    \<and> score (scan ascii_db init (cps ''act '' @ cps ''as ''))
        > score (scan ascii_db init (cps ''act '')) + score (scan ascii_db init (cps ''as '')))
   \<and> (set (matched ascii_db corpus (cps ''jailbreak''))
         \<inter> set (matched ascii_db corpus (cps ''s'')) = {}
      \<and> score (scan ascii_db init (cps ''jailbreak'' @ cps ''s''))
          < score (scan ascii_db init (cps ''jailbreak'')) + score (scan ascii_db init (cps ''s'')))"
proof -
  have 0: "weights [] = 0"
    by (simp add: weights_def)
  have 1: "matched ascii_db corpus (cps ''act '') = []"
    by (simp add: eval_defs)
  have 2: "matched ascii_db corpus (cps ''as '') = []"
    by (simp add: eval_defs)
  have 3: "weights (matched ascii_db corpus (cps ''act '' @ cps ''as '')) = 50"
    by (simp add: eval_defs)
  have 4: "weights (matched ascii_db corpus (cps ''jailbreak'')) = 50"
    by (simp add: eval_defs)
  have 5: "matched ascii_db corpus (cps ''s'') = []"
    by (simp add: eval_defs)
  have 6: "weights (matched ascii_db corpus (cps ''jailbreak'' @ cps ''s'')) = 0"
    by (simp add: eval_defs)
  show ?thesis
    by (simp add: score_init 0 1 2 3 4 5 6)
qed

text \<open>
  C6, amended.  For every pair of strings \<open>A\<close> and \<open>B\<close> whose sets of matching rules are
  disjoint, the score of \<open>A + B\<close> is at least the sum of the scores of \<open>A\<close> and \<open>B\<close>, and
  equal to it when every rule that matches \<open>A + B\<close> matches \<open>A\<close> or \<open>B\<close>; unless \<open>A\<close>
  ends with a word character, \<open>B\<close> begins with one, and one of the four rules with \<open>\b\<close>
  at an edge of its pattern matches \<open>A\<close> or \<open>B\<close>.
\<close>

theorem concat_additive_unless_edge_rule_cut:
  assumes "\<not> (ends_with_word U A \<and> starts_with_word U B)
           \<or> matched U edge_boundary_rules A = [] \<and> matched U edge_boundary_rules B = []"
      and "set (matched U corpus A) \<inter> set (matched U corpus B) = {}"
  shows "score (scan U init A) + score (scan U init B) \<le> score (scan U init (A @ B))
         \<and> (set (matched U corpus (A @ B)) \<subseteq> set (matched U corpus A) \<union> set (matched U corpus B)
              \<longrightarrow> score (scan U init (A @ B)) = score (scan U init A) + score (scan U init B))"
proof -
  note A = corpus_rule_kept_left[OF assms(1)]
  note B = corpus_rule_kept_right[OF assms(1)]
  have "weights (matched U corpus A) + weights (matched U corpus B)
          \<le> weights (matched U corpus (A @ B))"
    by (rule weights_matched_superadditive[OF A B assms(2)])
  moreover have "weights (matched U corpus (A @ B))
                   = weights (matched U corpus A) + weights (matched U corpus B)"
    if "set (matched U corpus (A @ B)) \<subseteq> set (matched U corpus A) \<union> set (matched U corpus B)"
    by (rule weights_matched_additive[OF A B assms(2) that])
  ultimately show ?thesis by (simp add: score_init)
qed

text \<open>
  The amended C6 at \<open>A = IGNORE PROMPTS\<close> and \<open>B = "ACT AS "\<close>, joined letter to letter:
  each triggers its own rule, the concatenation triggers both and no other.
\<close>

theorem concat_additive_unless_edge_rule_cut_witness:
  "ends_with_word ascii_db (cps ''IGNORE PROMPTS'') \<and> starts_with_word ascii_db (cps ''ACT AS '')
   \<and> matched ascii_db edge_boundary_rules (cps ''IGNORE PROMPTS'') = []
   \<and> matched ascii_db edge_boundary_rules (cps ''ACT AS '') = []
   \<and> set (matched ascii_db corpus (cps ''IGNORE PROMPTS''))
       \<inter> set (matched ascii_db corpus (cps ''ACT AS '')) = {}
   \<and> set (matched ascii_db corpus (cps ''IGNORE PROMPTS'' @ cps ''ACT AS ''))
       \<subseteq> set (matched ascii_db corpus (cps ''IGNORE PROMPTS''))
         \<union> set (matched ascii_db corpus (cps ''ACT AS ''))
   \<and> score (scan ascii_db init (cps ''IGNORE PROMPTS'')) = 50
   \<and> score (scan ascii_db init (cps ''ACT AS '')) = 50
   \<and> score (scan ascii_db init (cps ''IGNORE PROMPTS'' @ cps ''ACT AS '')) = 100"
proof -
  have 1: "matched ascii_db corpus (cps ''IGNORE PROMPTS'') = [INJECTION_PATTERNS ! 0]"
    by (simp add: eval_defs)
  have 2: "matched ascii_db corpus (cps ''ACT AS '') = [INJECTION_PATTERNS ! 9]"
    by (simp add: eval_defs)
  have 3: "matched ascii_db corpus (cps ''IGNORE PROMPTS'' @ cps ''ACT AS '')
             = [INJECTION_PATTERNS ! 0, INJECTION_PATTERNS ! 9]"
    by (simp add: eval_defs)
  have ne: "INJECTION_PATTERNS ! 0 \<noteq> INJECTION_PATTERNS ! 9"
    by (simp add: INJECTION_PATTERNS_def lits_def lit_def ascii_isalpha_def)
  have v: "weights [INJECTION_PATTERNS ! 0] = 50" "weights [INJECTION_PATTERNS ! 9] = 50"
    by (simp_all add: INJECTION_PATTERNS_def weights_def)
  have w: "ends_with_word ascii_db (cps ''IGNORE PROMPTS'')"
          "starts_with_word ascii_db (cps ''ACT AS '')"
    by (simp_all add: ends_with_word_def starts_with_word_def cps_def char_defs)
  have e: "matched ascii_db edge_boundary_rules (cps ''IGNORE PROMPTS'') = []"
          "matched ascii_db edge_boundary_rules (cps ''ACT AS '') = []"
    by (simp_all add: edge_boundary_rules_def eval_defs)
  have h1: "\<not> (ends_with_word ascii_db (cps ''IGNORE PROMPTS'')
                \<and> starts_with_word ascii_db (cps ''ACT AS ''))
            \<or> matched ascii_db edge_boundary_rules (cps ''IGNORE PROMPTS'') = []
              \<and> matched ascii_db edge_boundary_rules (cps ''ACT AS '') = []"
    using e by simp
  have h2: "set (matched ascii_db corpus (cps ''IGNORE PROMPTS''))
              \<inter> set (matched ascii_db corpus (cps ''ACT AS '')) = {}"
    unfolding 1 2 using ne by simp
  have h3: "set (matched ascii_db corpus (cps ''IGNORE PROMPTS'' @ cps ''ACT AS ''))
              \<subseteq> set (matched ascii_db corpus (cps ''IGNORE PROMPTS''))
                \<union> set (matched ascii_db corpus (cps ''ACT AS ''))"
    unfolding 1 2 3 by simp
  have s: "score (scan ascii_db init (cps ''IGNORE PROMPTS'')) = 50"
          "score (scan ascii_db init (cps ''ACT AS '')) = 50"
    unfolding score_init 1 2 by (rule v)+
  from concat_additive_unless_edge_rule_cut[OF h1 h2] h3 s w e h2
  show ?thesis by simp
qed

text \<open>
  C7 as stated fails: constructed with \<open>is_safe = False\<close> and score 10, the result stays
  unsafe although 10 is below the threshold.
\<close>

theorem ScanResult_is_safe_counterexample:
  "is_safe (mk_ScanResult False 10 []) \<noteq> (score (mk_ScanResult False 10 []) < 50)"
  by (simp add: mk_ScanResult_def post_init_def)

text \<open>
  C7, amended.  After construction \<open>is_safe\<close> holds exactly when the value passed to the
  constructor was true and the score is below 50: a score of 50 or more forces it to false,
  a lower score leaves the passed value as it is.  Score and detections are as passed.
\<close>

theorem ScanResult_is_safe_after_init:
  "is_safe (mk_ScanResult safe sc dets) = (safe \<and> sc < 50)
   \<and> score (mk_ScanResult safe sc dets) = sc
   \<and> detections (mk_ScanResult safe sc dets) = dets"
  by (auto simp: mk_ScanResult_def post_init_def)

text \<open>
  C8 as stated fails: \<open><!-- a>b ignore -->\<close> is a comment holding the word \<open>ignore\<close>, but
  the rule's \<open>[^>]*\<close> cannot cross the \<open>>\<close> inside the comment; the rule does not match and
  the scan scores 0.
\<close>

theorem comment_rule_counterexample:
  "cps ''<!-- a>b ignore -->'' = cps ''<!--'' @ cps '' a>b ignore '' @ cps ''-->''
   \<and> \<not> search ascii_db comment_rx (cps ''<!-- a>b ignore -->'')
   \<and> score (scan ascii_db init (cps ''<!-- a>b ignore -->'')) = 0"
proof -
  have 1: "\<not> search ascii_db comment_rx (cps ''<!-- a>b ignore -->'')"
    by (simp add: eval_defs)
  have 2: "weights (matched ascii_db corpus (cps ''<!-- a>b ignore -->'')) = 0"
    by (simp add: eval_defs)
  show ?thesis
    using 1 by (simp add: score_init 2) (simp add: cps_def)
qed

text \<open>
  C8, amended.  For every content that holds \<open><!--\<close>, then any characters other than
  \<open>>\<close>, then one of the words instruction, ignore, system, prompt in any mix of upper and
  lower case, then any characters other than \<open>>\<close>, then \<open>-->\<close>, the suspicious-comment
  rule matches, its detection is reported, and it adds 25 to the score of the other rules.
\<close>

theorem comment_rule_fires:
  assumes "62 \<notin> set x" and "62 \<notin> set y"
      and "map ascii_tolower kw
             \<in> {cps ''instruction'', cps ''ignore'', cps ''system'', cps ''prompt''}"
      and "content = pre @ cps ''<!--'' @ x @ kw @ y @ cps ''-->'' @ post"
  shows "search U comment_rx content
         \<and> ''Structure: Suspicious HTML comment (+25)''
               \<in> set (detections (scan U init content))
         \<and> score (scan U init content)
             = 25 + weights (matched U rules_besides_comment content)"
proof -
  have "search U comment_rx content"
    unfolding assms(4) by (rule comment_rx_matches[OF assms(1,2,3)])
  with comment_rule_contributes[OF this] show ?thesis by simp
qed

text \<open>The amended C8 at the content \<open>x <!-- IGNORE all -->\<close>.\<close>

theorem comment_rule_fires_witness:
  "62 \<notin> set (cps '' '') \<and> 62 \<notin> set (cps '' all '')
   \<and> map ascii_tolower (cps ''IGNORE'')
       \<in> {cps ''instruction'', cps ''ignore'', cps ''system'', cps ''prompt''}
   \<and> search ascii_db comment_rx (cps ''x <!-- IGNORE all -->'')
   \<and> ''Structure: Suspicious HTML comment (+25)''
         \<in> set (detections (scan ascii_db init (cps ''x <!-- IGNORE all -->'')))
   \<and> score (scan ascii_db init (cps ''x <!-- IGNORE all -->'')) = 25"
proof -
  have h1: "62 \<notin> set (cps '' '')" and h2: "62 \<notin> set (cps '' all '')"
    by (simp_all add: cps_def)
  have h3: "map ascii_tolower (cps ''IGNORE'')
              \<in> {cps ''instruction'', cps ''ignore'', cps ''system'', cps ''prompt''}"
    by (simp add: cps_def ascii_tolower_def)
  have h4: "cps ''x <!-- IGNORE all -->''
              = cps ''x '' @ cps ''<!--'' @ cps '' '' @ cps ''IGNORE'' @ cps '' all ''
                  @ cps ''-->'' @ []"
    by (simp add: cps_def)
  have r: "weights (matched ascii_db rules_besides_comment (cps ''x <!-- IGNORE all -->'')) = 0"
    by (simp add: rules_besides_comment_def eval_defs)
  from comment_rule_fires[OF h1 h2 h3 h4, of ascii_db] h1 h2 h3 r
  show ?thesis by simp
qed

text \<open>
  C9.  For every non-empty content, the detections are one formatted string per matched
  rule: the matched lexical rules in declaration order, then the matched structural rules
  in declaration order, each string holding the rule's label and its weight.
\<close>

theorem detections_in_corpus_order:
  assumes "content \<noteq> []"
  shows "detections (scan U self content) =
           map (\<lambda>(pattern, points, description).
                  ''Pattern: '' @ description @ '' (+'' @ str_int points @ '')'')
               (matched U (compiled_injection self) content)
           @ map (\<lambda>(pattern, points, description).
                    ''Structure: '' @ description @ '' (+'' @ str_int points @ '')'')
               (matched U (compiled_structural self) content)"
  using scan_nonempty(2)[OF assms, of U self] by (simp add: detection_def)

text \<open>C9 at a content that triggers one lexical and one structural rule.\<close>

theorem detections_in_corpus_order_witness:
  "cps ''[INST] <p hidden>'' \<noteq> []
   \<and> detections (scan ascii_db init (cps ''[INST] <p hidden>'')) =
       [''Pattern: Model token [INST] (+50)'',
        ''Structure: Hidden HTML (hidden attribute) (+25)'']"
proof -
  have ne: "cps ''[INST] <p hidden>'' \<noteq> []"
    by (simp add: cps_def)
  show ?thesis
    using detections_in_corpus_order[OF ne, of ascii_db init] ne
    by (simp add: init_def eval_defs str_int_def digits.simps)
qed

text \<open>
  C10.  \<open>scan_with_context\<close> returns what \<open>scan\<close> returns on the content, whatever the
  \<open>url\<close> and \<open>tool_name\<close> arguments are, \<open>None\<close> included.
\<close>

theorem scan_with_context_ignores_context:
  "scan_with_context U self content url tool_name = scan U self content"
  by (simp add: scan_with_context_def)

end
